theory Spec2Isabelle
  imports Main "HOL-Library.Word"
begin

unbundle bit_operations_syntax

section \<open>Go library functions used by the MAPI client\<close>

text \<open>
  Go strings are byte sequences, so a Go \<open>string\<close> is a HOL \<open>string\<close> (a list of 8-bit
  characters) and \<open>len\<close> is \<open>length\<close>. A \<open>[]byte\<close> is a list of 8-bit words.
\<close>

type_synonym byte = "8 word"

definition bytes_of :: "string \<Rightarrow> byte list" where
  "bytes_of s = map (\<lambda>c. of_nat (of_char c)) s"

definition string_of :: "byte list \<Rightarrow> string" where
  "string_of b = map (\<lambda>w. char_of (unat w)) b"

text \<open>\<open>strings.HasPrefix(s, prefix)\<close>.\<close>

definition HasPrefix :: "string \<Rightarrow> string \<Rightarrow> bool" where
  "HasPrefix s p = (take (length p) s = p)"

text \<open>
  \<open>strings.Split(s, sep)\<close> for a non-empty separator: the pieces between the leftmost
  non-overlapping occurrences of \<open>sep\<close>; always at least one piece. The counter skips the
  rest of a separator that has just been matched.
\<close>

fun Split_from :: "string \<Rightarrow> nat \<Rightarrow> string \<Rightarrow> string \<Rightarrow> string list" where
  "Split_from sep k cur [] = [rev cur]"
| "Split_from sep (Suc k) cur (c # cs) = Split_from sep k cur cs"
| "Split_from sep 0 cur (c # cs) =
     (if HasPrefix (c # cs) sep then rev cur # Split_from sep (length sep - 1) [] cs
      else Split_from sep 0 (c # cur) cs)"

definition Split :: "string \<Rightarrow> string \<Rightarrow> string list" where
  "Split s sep = Split_from sep 0 [] s"

text \<open>\<open>strings.Contains(s, substr)\<close>.\<close>

fun Contains :: "string \<Rightarrow> string \<Rightarrow> bool" where
  "Contains [] sub = (sub = [])"
| "Contains (c # cs) sub = (HasPrefix (c # cs) sub \<or> Contains cs sub)"

text \<open>
  \<open>strings.TrimSpace\<close> on the ASCII white space characters (tab, line feed, vertical tab,
  form feed, carriage return, space). The multi-byte Unicode spaces that Go also trims
  do not occur in the protocol's lines and are left in place here.
\<close>

definition isSpace :: "char \<Rightarrow> bool" where
  "isSpace c = (c \<in> set [CHR 0x09, CHR 0x0A, CHR 0x0B, CHR 0x0C, CHR 0x0D, CHR 0x20])"

definition TrimSpace :: "string \<Rightarrow> string" where
  "TrimSpace s = rev (dropWhile isSpace (rev (dropWhile isSpace s)))"

text \<open>
  \<open>strconv.ParseInt(s, 10, bitSize)\<close> and \<open>strconv.Atoi\<close> as the client uses them, with
  the error dropped (\<open>x, _ = strconv.Atoi(s)\<close>): an optional sign and at least one decimal
  digit, else 0; a value outside the range of \<open>bitSize\<close> bits is clamped to the nearest
  bound. \<open>Atoi\<close> parses to the 64-bit \<open>int\<close>.
\<close>

definition isDigit :: "char \<Rightarrow> bool" where
  "isDigit c = (48 \<le> (of_char c :: nat) \<and> (of_char c :: nat) \<le> 57)"

definition digitsVal :: "string \<Rightarrow> nat" where
  "digitsVal ds = foldl (\<lambda>n c. n * 10 + (of_char c - 48)) 0 ds"

definition ParseInt :: "string \<Rightarrow> nat \<Rightarrow> int" where
  "ParseInt s bitSize =
     (let neg = (s \<noteq> [] \<and> hd s = CHR ''-'');
          ds = (if s \<noteq> [] \<and> (hd s = CHR ''-'' \<or> hd s = CHR ''+'') then tl s else s)
      in if ds = [] \<or> \<not> list_all isDigit ds then 0
         else let n = int (digitsVal ds) in
           if neg then (if n > 2 ^ (bitSize - 1) then - (2 ^ (bitSize - 1)) else - n)
           else (if n \<ge> 2 ^ (bitSize - 1) then 2 ^ (bitSize - 1) - 1 else n))"

definition Atoi :: "string \<Rightarrow> int" where
  "Atoi s = ParseInt s 64"

text \<open>\<open>fmt.Sprintf("%d", n)\<close>.\<close>

fun showNat :: "nat \<Rightarrow> string" where
  "showNat n = (if n < 10 then [char_of (48 + n)] else showNat (n div 10) @ [char_of (48 + n mod 10)])"

definition showInt :: "int \<Rightarrow> string" where
  "showInt i = (if i < 0 then CHR ''-'' # showNat (nat (- i)) else showNat (nat i))"

section \<open>Errors\<close>

text \<open>
  A Go function that returns \<open>error\<close> returns \<open>error option\<close> here (\<open>None\<close> is \<open>nil\<close>).
  \<open>Err msg\<close> is an error value built with \<open>fmt.Errorf\<close>, \<open>EOF\<close> is \<open>io.EOF\<close>, and
  \<open>Panic\<close> stands for a run-time panic, which in Go unwinds the callers instead of being
  returned.
\<close>

datatype panic = NilDereference | IndexOutOfRange | SliceBounds | MakeSliceLen

datatype error = Err string | EOF | Panic panic

text \<open>Indexing a slice (\<open>t[i]\<close>) and \<open>make([]T, n)\<close>, with their panics.\<close>

definition index :: "'a list \<Rightarrow> nat \<Rightarrow> error + 'a" where
  "index xs i = (if i < length xs then Inr (xs ! i) else Inl (Panic IndexOutOfRange))"

definition make_slice :: "int \<Rightarrow> 'a \<Rightarrow> error + 'a list" where
  "make_slice n z = (if n < 0 then Inl (Panic MakeSliceLen) else Inr (replicate (nat n) z))"

section \<open>The connection handle (resultset.go, second file: mapi)\<close>

text \<open>
  The TCP connection is the sequence of segments the peer still delivers (\<open>rx\<close>; a
  \<open>Read\<close> returns bytes of the first segment only, and fails with \<open>EOF\<close> when none is
  left), the bytes written so far (\<open>tx\<close>), and the number of \<open>Write\<close> calls that still
  succeed before the link breaks (\<open>tx_left\<close>; \<open>None\<close>: it never breaks).
\<close>

record TCPConn =
  rx :: "byte list list"
  tx :: "byte list"
  tx_left :: "nat option"

definition mapi_STATE_READY :: int where "mapi_STATE_READY = 1"
definition mapi_STATE_INIT :: int where "mapi_STATE_INIT = 0"
definition MAPI_ARRAY_SIZE :: int where "MAPI_ARRAY_SIZE = 100"
definition mapi_MAX_PACKAGE_LENGTH :: nat where "mapi_MAX_PACKAGE_LENGTH = (1024 * 8) - 2"
definition mapi_MSG_PROMPT :: string where "mapi_MSG_PROMPT = []"
definition mapi_MSG_INFO :: string where "mapi_MSG_INFO = ''#''"
definition mapi_MSG_ERROR :: string where "mapi_MSG_ERROR = ''!''"
definition mapi_MSG_Q :: string where "mapi_MSG_Q = ''&''"
definition mapi_MSG_QTABLE :: string where "mapi_MSG_QTABLE = ''&1''"
definition mapi_MSG_QUPDATE :: string where "mapi_MSG_QUPDATE = ''&2''"
definition mapi_MSG_QSCHEMA :: string where "mapi_MSG_QSCHEMA = ''&3''"
definition mapi_MSG_QTRANS :: string where "mapi_MSG_QTRANS = ''&4''"
definition mapi_MSG_QPREPARE :: string where "mapi_MSG_QPREPARE = ''&5''"
definition mapi_MSG_QBLOCK :: string where "mapi_MSG_QBLOCK = ''&6''"
definition mapi_MSG_HEADER :: string where "mapi_MSG_HEADER = ''%''"
definition mapi_MSG_TUPLE :: string where "mapi_MSG_TUPLE = ''[''"
definition mapi_MSG_REDIRECT :: string where "mapi_MSG_REDIRECT = ''^''"
definition mapi_MSG_OK :: string where "mapi_MSG_OK = ''=OK''"
definition mapi_MSG_MORE :: string where "mapi_MSG_MORE = [CHR 0x01, CHR 0x02, CHR 0x0A]"

record MapiConn =
  Hostname :: string
  Port :: int
  Username :: string
  Password :: string
  Database :: string
  Language :: string
  State :: int
  sizeHeader :: bool
  replySize :: int
  autoCommit :: bool
  conn :: "TCPConn option"

subsection \<open>Reading and writing the connection\<close>

text \<open>
  \<open>c.conn.Read(b)\<close> for a buffer of \<open>n\<close> bytes and \<open>c.conn.Write(data)\<close>. The field
  \<open>c.conn\<close> may be \<open>nil\<close> (\<open>None\<close>); the methods of a \<open>nil\<close> connection return an error.
\<close>

definition Read :: "nat \<Rightarrow> TCPConn option \<Rightarrow> (error + byte list) \<times> TCPConn option" where
  "Read n k =
     (case k of
        None \<Rightarrow> (Inl (Err ''invalid argument''), k)
      | Some c \<Rightarrow>
          (case rx c of
             [] \<Rightarrow> (Inl EOF, k)
           | s # ss \<Rightarrow>
               (Inr (take n s), Some (c\<lparr>rx := (if drop n s = [] then ss else drop n s # ss)\<rparr>))))"

definition Write :: "byte list \<Rightarrow> TCPConn option \<Rightarrow> error option \<times> TCPConn option" where
  "Write data k =
     (case k of
        None \<Rightarrow> (Some (Err ''invalid argument''), k)
      | Some c \<Rightarrow>
          (case tx_left c of
             None \<Rightarrow> (None, Some (c\<lparr>tx := tx c @ data\<rparr>))
           | Some 0 \<Rightarrow> (Some (Err ''broken pipe''), k)
           | Some (Suc n) \<Rightarrow> (None, Some (c\<lparr>tx := tx c @ data, tx_left := Some n\<rparr>))))"

text \<open>
  \<open>copy(r[read:], b[:n])\<close>: the bytes of \<open>b\<close> go to \<open>r\<close> from position \<open>read\<close> on, as
  many as fit.
\<close>

definition copy_at :: "byte list \<Rightarrow> nat \<Rightarrow> byte list \<Rightarrow> byte list" where
  "copy_at r read b = take (length r) (take read r @ b @ drop (read + length b) r)"

text \<open>
  The size of what the peer still delivers: every byte and every segment counts, so each
  \<open>Read\<close> that does not fail makes it smaller.
\<close>

definition rx_size :: "TCPConn option \<Rightarrow> nat" where
  "rx_size k = (case k of None \<Rightarrow> 0 | Some c \<Rightarrow> sum_list (map (\<lambda>s. Suc (length s)) (rx c)))"

text \<open>
  \<open>getBytes\<close>: every turn of the loop reads into the whole buffer \<open>b\<close> of \<open>count\<close> bytes,
  whatever has been read before.
\<close>

function getBytes_loop ::
  "nat \<Rightarrow> nat \<Rightarrow> byte list \<Rightarrow> TCPConn option \<Rightarrow> (error + byte list) \<times> TCPConn option" where
  "getBytes_loop count read r k =
     (if read < count
      then (case Read count k of
              (Inl err, k') \<Rightarrow> (Inl err, k')
            | (Inr b, k') \<Rightarrow> getBytes_loop count (read + length b) (copy_at r read b) k')
      else (Inr r, k))"
  by pat_completeness auto
termination
proof -
  have step: "count - (read + length b) < count - read \<or> (length b = 0 \<and> rx_size k' < rx_size k)"
    if "read < count" and "(Inr b, k') = Read count k"
    for count read :: nat and b :: "byte list" and k k' :: "TCPConn option"
  proof -
    from that(2) [symmetric] obtain c s ss where k: "k = Some c" and rxc: "rx c = s # ss" and b: "b = take count s"
      and k': "k' = Some (c\<lparr>rx := (if drop count s = [] then ss else drop count s # ss)\<rparr>)"
      by (auto simp: Read_def split: option.splits list.splits)
    show ?thesis
    proof (cases "s = []")
      case True
      with k rxc b k' show ?thesis by (simp add: rx_size_def)
    next
      case False
      with that(1) b have "0 < length b" by (cases s) auto
      with that(1) show ?thesis by arith
    qed
  qed
  show ?thesis
    by (relation "measures [\<lambda>(count, read, r, k). count - read, \<lambda>(count, read, r, k). rx_size k]")
       (auto dest: step)
qed

definition getBytes :: "nat \<Rightarrow> MapiConn \<Rightarrow> (error + byte list) \<times> MapiConn" where
  "getBytes count c =
     (case getBytes_loop count 0 (replicate count 0) (conn c) of
        (res, k) \<Rightarrow> (res, c\<lparr>conn := k\<rparr>))"

lemma Read_rx_size:
  assumes "Read n k = (Inr b, k')" and "0 < n"
  shows "rx_size k' < rx_size k"
proof -
  from assms(1) obtain c s ss where k: "k = Some c" and rxc: "rx c = s # ss"
    and k': "k' = Some (c\<lparr>rx := (if drop n s = [] then ss else drop n s # ss)\<rparr>)"
    by (auto simp: Read_def split: option.splits list.splits)
  show ?thesis
  proof (cases "drop n s = []")
    case True
    with k rxc k' show ?thesis by (simp add: rx_size_def)
  next
    case False
    then have "s \<noteq> []" by auto
    with assms(2) have "length s - n < length s" by (cases s) auto
    with False k rxc k' show ?thesis by (simp add: rx_size_def)
  qed
qed

declare getBytes_loop.simps [simp del]

lemma getBytes_loop_rx_size:
  "getBytes_loop count read r k = (res, k') \<Longrightarrow> rx_size k' \<le> rx_size k"
proof (induction count read r k rule: getBytes_loop.induct)
  case (1 count read r k)
  show ?case
  proof (cases "read < count")
    case False
    with "1.prems" show ?thesis by (simp add: getBytes_loop.simps [of count read])
  next
    case True
    obtain x k1 where rd: "Read count k = (x, k1)" by (cases "Read count k")
    show ?thesis
    proof (cases x)
      case (Inl err)
      with True rd "1.prems" have "k' = k1" by (simp add: getBytes_loop.simps [of count read])
      moreover from rd Inl have "k1 = k"
        by (auto simp: Read_def split: option.splits list.splits)
      ultimately show ?thesis by simp
    next
      case (Inr b)
      with True rd "1.prems"
      have "getBytes_loop count (read + length b) (copy_at r read b) k1 = (res, k')"
        by (simp add: getBytes_loop.simps [of count read])
      with "1.IH" [OF True rd [symmetric] Inr] have "rx_size k' \<le> rx_size k1" by simp
      moreover from Read_rx_size [of count k b k1] rd Inr True have "rx_size k1 < rx_size k" by simp
      ultimately show ?thesis by simp
    qed
  qed
qed

lemma getBytes_loop_rx_size_less:
  assumes "getBytes_loop count read r k = (Inr d, k')" and "read < count"
  shows "rx_size k' < rx_size k"
proof -
  obtain x k1 where rd: "Read count k = (x, k1)" by (cases "Read count k")
  show ?thesis
  proof (cases x)
    case (Inl err)
    with assms rd show ?thesis by (simp add: getBytes_loop.simps [of count read])
  next
    case (Inr b)
    with assms rd
    have "getBytes_loop count (read + length b) (copy_at r read b) k1 = (Inr d, k')"
      by (simp add: getBytes_loop.simps [of count read])
    then have "rx_size k' \<le> rx_size k1" by (rule getBytes_loop_rx_size)
    moreover from Read_rx_size [of count k b k1] rd Inr assms(2) have "rx_size k1 < rx_size k" by simp
    ultimately show ?thesis by simp
  qed
qed

lemma getBytes_rx_size:
  "getBytes count c = (res, c') \<Longrightarrow> rx_size (conn c') \<le> rx_size (conn c)"
  by (auto simp: getBytes_def split: prod.splits dest: getBytes_loop_rx_size)

lemma getBytes_rx_size_less:
  "getBytes count c = (Inr d, c') \<Longrightarrow> 0 < count \<Longrightarrow> rx_size (conn c') < rx_size (conn c)"
  by (auto simp: getBytes_def split: prod.splits dest: getBytes_loop_rx_size_less)

lemma getBytes_rx_size_Inr:
  "getBytes count c = (Inr d, c') \<Longrightarrow>
     rx_size (conn c') \<le> rx_size (conn c) \<and> (0 < count \<longrightarrow> rx_size (conn c') < rx_size (conn c))"
  using getBytes_rx_size getBytes_rx_size_less by blast

text \<open>
  The two header bytes as \<open>binary.Read\<close> decodes them into a \<open>uint16\<close>, little-endian, and
  as \<open>binary.Write\<close> encodes them.
\<close>

definition le16 :: "byte list \<Rightarrow> error + 16 word" where
  "le16 flag =
     (case flag of
        [b0, b1] \<Rightarrow> Inr (ucast b0 OR push_bit 8 (ucast b1))
      | _ \<Rightarrow> Inl (Err ''unexpected EOF''))"

definition put_le16 :: "16 word \<Rightarrow> byte list" where
  "put_le16 w = [ucast w, ucast (drop_bit 8 w)]"

text \<open>
  \<open>getBlock\<close>: the body of the loop runs at least once, since \<open>last\<close> starts at 0.
\<close>

function getBlock_loop :: "byte list \<Rightarrow> MapiConn \<Rightarrow> (error + byte list) \<times> MapiConn" where
  "getBlock_loop r c =
     (case getBytes 2 c of
        (Inl err, c1) \<Rightarrow> (Inl err, c1)
      | (Inr flag, c1) \<Rightarrow>
          (case le16 flag of
             Inl err \<Rightarrow> (Inl err, c1)
           | Inr unpacked \<Rightarrow>
               (let len = drop_bit 1 unpacked;
                    last = unat (unpacked AND 1)
                in case getBytes (unat len) c1 of
                     (Inl err, c2) \<Rightarrow> (Inl err, c2)
                   | (Inr d, c2) \<Rightarrow>
                       if last \<noteq> 1 then getBlock_loop (r @ d) c2 else (Inr (r @ d), c2))))"
  by pat_completeness auto
termination
  by (relation "measure (\<lambda>(r, c). rx_size (conn c))")
     (auto dest!: getBytes_rx_size_Inr [OF sym])

declare getBlock_loop.simps [simp del]

definition getBlock :: "MapiConn \<Rightarrow> (error + byte list) \<times> MapiConn" where
  "getBlock c = getBlock_loop [] c"

text \<open>
  \<open>putBlock\<close>: \<open>last\<close> is set in the turn of the loop that sends a chunk shorter than the
  maximum, and that turn is the final one.
\<close>

function putBlock_loop :: "byte list \<Rightarrow> nat \<Rightarrow> MapiConn \<Rightarrow> error option \<times> MapiConn" where
  "putBlock_loop b pos c =
     (let end = (if pos + mapi_MAX_PACKAGE_LENGTH > length b then length b
                 else pos + mapi_MAX_PACKAGE_LENGTH);
          data = take (end - pos) (drop pos b);
          len = length data;
          last = (if len < mapi_MAX_PACKAGE_LENGTH then 1 else 0);
          packed = (word_of_nat (push_bit 1 len + last) :: 16 word);
          flag = put_le16 packed
      in case Write flag (conn c) of
           (Some err, k1) \<Rightarrow> (Some err, c\<lparr>conn := k1\<rparr>)
         | (None, k1) \<Rightarrow>
             (case Write data k1 of
                (Some err, k2) \<Rightarrow> (Some err, c\<lparr>conn := k2\<rparr>)
              | (None, k2) \<Rightarrow>
                  if last \<noteq> (1::nat) then putBlock_loop b (pos + len) (c\<lparr>conn := k2\<rparr>)
                  else (None, c\<lparr>conn := k2\<rparr>)))"
  by pat_completeness auto
termination
proof (relation "measure (\<lambda>(b, pos, c). length b - pos)", goal_cases)
  case 1
  show ?case by simp
next
  case 2
  then show ?case
    by (auto simp: mapi_MAX_PACKAGE_LENGTH_def split: if_splits)
qed

declare putBlock_loop.simps [simp del]

definition putBlock :: "byte list \<Rightarrow> MapiConn \<Rightarrow> error option \<times> MapiConn" where
  "putBlock b c = putBlock_loop b 0 c"

subsection \<open>What the transport leaves alone\<close>

text \<open>
  Reading changes nothing but what is left to read, and writing nothing but what has
  been written and the writes that are left; \<open>getBlock\<close> and \<open>putBlock\<close> change the
  connection of the handle and nothing else. A block that has been read has made the
  input smaller, which is why \<open>cmd\<close> terminates.
\<close>

definition only_rx :: "TCPConn option \<Rightarrow> TCPConn option \<Rightarrow> bool" where
  "only_rx k k' =
     (case (k, k') of
        (None, None) \<Rightarrow> True
      | (Some c, Some c') \<Rightarrow> tx c' = tx c \<and> tx_left c' = tx_left c
      | _ \<Rightarrow> False)"

definition only_tx :: "TCPConn option \<Rightarrow> TCPConn option \<Rightarrow> bool" where
  "only_tx k k' =
     (case (k, k') of
        (None, None) \<Rightarrow> True
      | (Some c, Some c') \<Rightarrow> rx c' = rx c
      | _ \<Rightarrow> False)"

lemma only_rx_refl [simp]: "only_rx k k"
  by (simp add: only_rx_def split: option.splits)

lemma only_rx_trans: "only_rx k k1 \<Longrightarrow> only_rx k1 k2 \<Longrightarrow> only_rx k k2"
  by (auto simp: only_rx_def split: option.splits)

lemma only_tx_refl [simp]: "only_tx k k"
  by (simp add: only_tx_def split: option.splits)

lemma only_tx_trans: "only_tx k k1 \<Longrightarrow> only_tx k1 k2 \<Longrightarrow> only_tx k k2"
  by (auto simp: only_tx_def split: option.splits)

lemma only_tx_rx_size: "only_tx k k' \<Longrightarrow> rx_size k' = rx_size k"
  by (auto simp: only_tx_def rx_size_def split: option.splits)

lemma Read_only_rx: "Read n k = (res, k') \<Longrightarrow> only_rx k k'"
  by (auto simp: Read_def only_rx_def split: option.splits list.splits)

lemma Write_only_tx: "Write d k = (e, k') \<Longrightarrow> only_tx k k'"
  by (auto simp: Write_def only_tx_def split: option.splits nat.splits)

lemma getBytes_loop_only_rx:
  "getBytes_loop count read r k = (res, k') \<Longrightarrow> only_rx k k'"
proof (induction count read r k rule: getBytes_loop.induct)
  case (1 count read r k)
  show ?case
  proof (cases "read < count")
    case False
    with "1.prems" show ?thesis by (simp add: getBytes_loop.simps [of count read])
  next
    case True
    obtain x k1 where rd: "Read count k = (x, k1)" by (cases "Read count k")
    note o = Read_only_rx [OF rd]
    show ?thesis
    proof (cases x)
      case (Inl err)
      with True rd "1.prems" have "k' = k1" by (simp add: getBytes_loop.simps [of count read])
      with o show ?thesis by simp
    next
      case (Inr b)
      with True rd "1.prems"
      have "getBytes_loop count (read + length b) (copy_at r read b) k1 = (res, k')"
        by (simp add: getBytes_loop.simps [of count read])
      from "1.IH" [OF True rd [symmetric] Inr this] o show ?thesis
        by (blast intro: only_rx_trans)
    qed
  qed
qed

lemma getBytes_only_rx:
  "getBytes n c = (r, c') \<Longrightarrow> \<exists>k. c' = c\<lparr>conn := k\<rparr> \<and> only_rx (conn c) k"
  by (auto simp: getBytes_def split: prod.splits dest: getBytes_loop_only_rx)


lemma getBlock_loop_only_rx:
  "getBlock_loop r c = (res, c') \<Longrightarrow>
     \<exists>k. c' = c\<lparr>conn := k\<rparr> \<and> only_rx (conn c) k
         \<and> (\<forall>d. res = Inr d \<longrightarrow> rx_size k < rx_size (conn c))"
proof (induction r c arbitrary: res c' rule: getBlock_loop.induct)
  case (1 r c)
  obtain x c1 where g1: "getBytes 2 c = (x, c1)" by (cases "getBytes 2 c")
  from getBytes_only_rx [OF g1] obtain k1 where
    k1: "c1 = c\<lparr>conn := k1\<rparr>" "only_rx (conn c) k1" by auto
  show ?case
  proof (cases x)
    case (Inl err)
    with g1 k1 "1.prems" show ?thesis by (subst (asm) getBlock_loop.simps) auto
  next
    case flag: (Inr flag)
    from getBytes_rx_size_less [of 2 c flag c1] g1 flag k1
    have less: "rx_size k1 < rx_size (conn c)" by simp
    show ?thesis
    proof (cases "le16 flag")
      case (Inl err)
      with g1 k1 flag "1.prems" show ?thesis by (subst (asm) getBlock_loop.simps) auto
    next
      case w: (Inr unpacked)
      obtain y c2 where g2: "getBytes (unat (drop_bit 1 unpacked)) c1 = (y, c2)"
        by (cases "getBytes (unat (drop_bit 1 unpacked)) c1")
      from getBytes_only_rx [OF g2] k1 obtain k2 where
        k2: "c2 = c\<lparr>conn := k2\<rparr>" "only_rx k1 k2" by auto
      from getBytes_rx_size [OF g2] k1 k2 have le2: "rx_size k2 \<le> rx_size k1" by simp
      have o2: "only_rx (conn c) k2" using k1(2) k2(2) by (rule only_rx_trans)
      show ?thesis
      proof (cases y)
        case (Inl err)
        with g1 flag w g2 k2 o2 "1.prems" show ?thesis
          by (subst (asm) getBlock_loop.simps) (auto simp: Let_def)
      next
        case d: (Inr d)
        show ?thesis
        proof (cases "unat (unpacked AND 1) \<noteq> 1")
          case True
          with g1 flag w g2 d "1.prems" have "getBlock_loop (r @ d) c2 = (res, c')"
            by (subst (asm) getBlock_loop.simps) (simp add: Let_def)
          from "1.IH" [OF g1 [symmetric] flag w refl refl g2 [symmetric] d True this]
          obtain k3 where k3: "c' = c2\<lparr>conn := k3\<rparr>" "only_rx (conn c2) k3"
            "\<forall>d. res = Inr d \<longrightarrow> rx_size k3 < rx_size (conn c2)" by auto
          from k3(2) k2(1) o2 have "only_rx (conn c) k3" by (auto intro: only_rx_trans)
          moreover from k3(3) k2(1) le2 less
          have "\<forall>d. res = Inr d \<longrightarrow> rx_size k3 < rx_size (conn c)" by auto
          ultimately show ?thesis using k3(1) k2(1) by auto
        next
          case False
          with g1 flag w g2 d k2 o2 le2 less "1.prems" show ?thesis
            by (subst (asm) getBlock_loop.simps) (auto simp: Let_def)
        qed
      qed
    qed
  qed
qed

lemma getBlock_only_rx:
  "getBlock c = (res, c') \<Longrightarrow>
     \<exists>k. c' = c\<lparr>conn := k\<rparr> \<and> only_rx (conn c) k
         \<and> (\<forall>d. res = Inr d \<longrightarrow> rx_size k < rx_size (conn c))"
  unfolding getBlock_def by (rule getBlock_loop_only_rx)

lemma putBlock_loop_only_tx:
  "putBlock_loop b pos c = (e, c') \<Longrightarrow> \<exists>k. c' = c\<lparr>conn := k\<rparr> \<and> only_tx (conn c) k"
proof (induction "length b - pos" arbitrary: pos c rule: less_induct)
  case less
  define data where "data = take ((if pos + mapi_MAX_PACKAGE_LENGTH > length b then length b
                 else pos + mapi_MAX_PACKAGE_LENGTH) - pos) (drop pos b)"
  define flag where "flag = put_le16 (word_of_nat (push_bit 1 (length data)
                        + (if length data < mapi_MAX_PACKAGE_LENGTH then 1 else 0)))"
  have eq: "putBlock_loop b pos c =
     (case Write flag (conn c) of
        (Some err, k1) \<Rightarrow> (Some err, c\<lparr>conn := k1\<rparr>)
      | (None, k1) \<Rightarrow>
          (case Write data k1 of
             (Some err, k2) \<Rightarrow> (Some err, c\<lparr>conn := k2\<rparr>)
           | (None, k2) \<Rightarrow>
               if (if length data < mapi_MAX_PACKAGE_LENGTH then 1 else 0) \<noteq> (1::nat)
               then putBlock_loop b (pos + length data) (c\<lparr>conn := k2\<rparr>)
               else (None, c\<lparr>conn := k2\<rparr>)))"
    by (subst putBlock_loop.simps) (simp only: Let_def data_def flag_def)
  obtain e1 k1 where w1: "Write flag (conn c) = (e1, k1)" by (cases "Write flag (conn c)")
  obtain e2 k2 where w2: "Write data k1 = (e2, k2)" by (cases "Write data k1")
  note o1 = Write_only_tx [OF w1]
  note o2 = only_tx_trans [OF o1 Write_only_tx [OF w2]]
  show ?case
  proof (cases "e1 = None \<and> e2 = None \<and> \<not> length data < mapi_MAX_PACKAGE_LENGTH")
    case False
    with less.prems w1 w2 o1 o2 show ?thesis
      unfolding eq by (auto split: option.splits)
  next
    case True
    then have len: "length data = mapi_MAX_PACKAGE_LENGTH"
      unfolding data_def by (auto split: if_splits)
    from True less.prems w1 w2
    have r: "putBlock_loop b (pos + length data) (c\<lparr>conn := k2\<rparr>) = (e, c')"
      unfolding eq by auto
    have "pos + mapi_MAX_PACKAGE_LENGTH \<le> length b"
      using len unfolding data_def by (auto simp: mapi_MAX_PACKAGE_LENGTH_def split: if_splits)
    then have m: "length b - (pos + length data) < length b - pos"
      using len by (simp add: mapi_MAX_PACKAGE_LENGTH_def)
    from less.hyps [OF m r] o2 show ?thesis by (auto intro: only_tx_trans)
  qed
qed

lemma putBlock_only_tx:
  "putBlock b c = (e, c') \<Longrightarrow> \<exists>k. c' = c\<lparr>conn := k\<rparr> \<and> only_tx (conn c) k"
  unfolding putBlock_def by (rule putBlock_loop_only_tx)

lemma getBlock_handle: "getBlock c = (res, c') \<Longrightarrow> \<exists>k. c' = c\<lparr>conn := k\<rparr>"
  using getBlock_only_rx by blast

lemma putBlock_handle: "putBlock b c = (e, c') \<Longrightarrow> \<exists>k. c' = c\<lparr>conn := k\<rparr>"
  using putBlock_only_tx by blast

subsection \<open>Commands\<close>

text \<open>
  \<open>cmd\<close> sends the operation and reads the answer; when the answer is the prompt for
  more input, it calls itself with the empty operation.
\<close>

function cmd :: "string \<Rightarrow> MapiConn \<Rightarrow> (error + string) \<times> MapiConn" where
  "cmd operation c =
     (if State c \<noteq> mapi_STATE_READY then (Inl (Err ''mapi: database is not connected''), c)
      else case putBlock (bytes_of operation) c of
             (Some err, c1) \<Rightarrow> (Inl err, c1)
           | (None, c1) \<Rightarrow>
               (case getBlock c1 of
                  (Inl err, c2) \<Rightarrow> (Inl err, c2)
                | (Inr r, c2) \<Rightarrow>
                    (let resp = string_of r in
                     if length resp = 0 then (Inr [], c2)
                     else if HasPrefix resp mapi_MSG_OK then (Inr (TrimSpace (drop 3 resp)), c2)
                     else if resp = mapi_MSG_MORE then cmd [] c2
                     else if HasPrefix resp mapi_MSG_Q \<or> HasPrefix resp mapi_MSG_HEADER
                             \<or> HasPrefix resp mapi_MSG_TUPLE then (Inr resp, c2)
                     else if HasPrefix resp mapi_MSG_ERROR then
                       (Inl (Err (''mapi: operational error: '' @ drop 1 resp)), c2)
                     else (Inl (Err (''mapi: unknown state: '' @ resp)), c2))))"
  by pat_completeness auto
termination
proof -
  have step: "rx_size (conn c2) < rx_size (conn c)"
    if "(None, c1) = putBlock b c" and "(Inr r, c2) = getBlock c1"
    for b r and c c1 c2 :: MapiConn
  proof -
    from putBlock_only_tx [OF that(1) [symmetric]] have "rx_size (conn c1) = rx_size (conn c)"
      by (auto dest: only_tx_rx_size)
    moreover from getBlock_only_rx [OF that(2) [symmetric]]
    have "rx_size (conn c2) < rx_size (conn c1)" by auto
    ultimately show ?thesis by simp
  qed
  show ?thesis
    by (relation "measure (\<lambda>(operation, c). rx_size (conn c))") (auto dest: step)
qed

declare cmd.simps [simp del]

definition fetchNext :: "int \<Rightarrow> int \<Rightarrow> int \<Rightarrow> MapiConn \<Rightarrow> (error + string) \<times> MapiConn" where
  "fetchNext queryId offset amount c =
     cmd (''Xexport '' @ showInt queryId @ '' '' @ showInt offset @ '' '' @ showInt amount) c"

subsection \<open>The login handshake\<close>

text \<open>
  The hash functions of Go's \<open>crypto\<close> packages are parameters of the model: each maps
  the text written to the hash to the digest that \<open>h.Sum(nil)\<close> returns. Writing two
  strings to a hash is hashing their concatenation.
\<close>

record crypto =
  SHA512 :: "string \<Rightarrow> byte list"
  SHA1 :: "string \<Rightarrow> byte list"
  MD5 :: "string \<Rightarrow> byte list"

text \<open>\<open>fmt.Sprintf("%x", digest)\<close>: two lower-case hexadecimal digits per byte.\<close>

definition hexdigit :: "nat \<Rightarrow> char" where
  "hexdigit n = ''0123456789abcdef'' ! (n mod 16)"

definition hex :: "byte list \<Rightarrow> string" where
  "hex b = concat (map (\<lambda>w. [hexdigit (unat w div 16), hexdigit (unat w mod 16)]) b)"

definition bind_res :: "error + 'a \<Rightarrow> ('a \<Rightarrow> error + 'b) \<Rightarrow> error + 'b" where
  "bind_res m f = (case m of Inl e \<Rightarrow> Inl e | Inr x \<Rightarrow> f x)"

text \<open>The slice expression \<open>s[n:]\<close>, which panics when \<open>s\<close> is shorter than \<open>n\<close>.\<close>

definition slice_from :: "string \<Rightarrow> nat \<Rightarrow> error + string" where
  "slice_from s n = (if n \<le> length s then Inr (drop n s) else Inl (Panic SliceBounds))"

definition challengeResponse :: "crypto \<Rightarrow> byte list \<Rightarrow> MapiConn \<Rightarrow> error + string" where
  "challengeResponse h challenge c =
     (let t = Split (string_of challenge) '':'' in
      bind_res (index t 0) (\<lambda>salt.
      bind_res (index t 2) (\<lambda>protocol.
      bind_res (index t 3) (\<lambda>hashes.
      bind_res (index t 5) (\<lambda>algo.
        if protocol \<noteq> ''9'' then Inl (Err ''mapi: we only speak protocol v9'')
        else if algo = ''SHA512'' then
          (let p = hex (SHA512 h (Password c));
               shashes = '','' @ hashes @ '',''
           in if Contains shashes '',SHA1,'' then
                Inr (''BIG:'' @ Username c @ '':'' @ (''{SHA1}'' @ hex (SHA1 h (p @ salt)))
                       @ '':'' @ Language c @ '':'' @ Database c @ '':'')
              else if Contains shashes '',MD5,'' then
                Inr (''BIG:'' @ Username c @ '':'' @ (''{MD5}'' @ hex (MD5 h (p @ salt)))
                       @ '':'' @ Language c @ '':'' @ Database c @ '':'')
              else Inl (Err (''mapi: unsupported hash algorithm required for login '' @ hashes)))
        else Inl (Err (''mapi: unsupported algorithm: '' @ algo)))))))"

text \<open>
  The network, for \<open>Connect\<close>: the outcomes of the dial attempts to come, in order. An
  attempt yields a fresh connection or fails (\<open>None\<close>); when the list is used up, dialling
  fails.
\<close>

type_synonym dials = "TCPConn option list"

text \<open>
  What \<open>tryLogin\<close> does with the trimmed prompt, up to the two places where it calls
  itself or \<open>Connect\<close>: \<open>Accept\<close> falls through to \<open>c.State = mapi_STATE_READY\<close>,
  \<open>Restart\<close> is the meta-proxy branch while \<open>iteration <= 10\<close>, \<open>Reconnect\<close> the
  branch of a redirect to a server, with the handle as the branch has changed it before it
  closes the connection; \<open>Fail\<close> is a returned error or a panic, with the handle as it
  is then.
\<close>

datatype action = Accept | Fail error MapiConn | Restart | Reconnect MapiConn

text \<open>
  The branch of a redirect to a server: host, port and database are taken from the
  fields of the redirect one after the other, so a panic on a missing field leaves the
  earlier assignments in place.
\<close>

definition redirect_server :: "string list \<Rightarrow> MapiConn \<Rightarrow> error option \<times> MapiConn" where
  "redirect_server r c =
     (case bind_res (index r 2) (\<lambda>r2. slice_from r2 2) of
        Inl e \<Rightarrow> (Some e, c)
      | Inr host \<Rightarrow>
          (let c1 = c\<lparr>Hostname := host\<rparr> in
           case index r 3 of
             Inl e \<Rightarrow> (Some e, c1)
           | Inr r3 \<Rightarrow>
               (let t = Split r3 ''/'' in
                case index t 0 of
                  Inl e \<Rightarrow> (Some e, c1)
                | Inr t0 \<Rightarrow>
                    (let c2 = c1\<lparr>Port := ParseInt t0 32\<rparr> in
                     case index t 1 of
                       Inl e \<Rightarrow> (Some e, c2)
                     | Inr t1 \<Rightarrow> (None, c2\<lparr>Database := t1\<rparr>)))))"

definition prompt_action :: "string \<Rightarrow> int \<Rightarrow> MapiConn \<Rightarrow> action" where
  "prompt_action prompt iteration c =
     (if length prompt = 0 then Accept
      else if prompt = mapi_MSG_OK then Accept
      else if HasPrefix prompt mapi_MSG_INFO then Accept
      else if HasPrefix prompt mapi_MSG_ERROR then
        Fail (Err (''mapi: database error: '' @ drop 1 prompt)) c
      else if HasPrefix prompt mapi_MSG_REDIRECT then
        (let t = Split prompt '' '' in
         case bind_res (index t 0) (\<lambda>t0. bind_res (slice_from t0 1) (\<lambda>s. Inr (Split s '':''))) of
           Inl e \<Rightarrow> Fail e c
         | Inr r \<Rightarrow>
             (case index r 1 of
                Inl e \<Rightarrow> Fail e c
              | Inr r1 \<Rightarrow>
                  if r1 = ''merovingian'' then
                    (if iteration \<le> 10 then Restart
                     else Fail (Err ''mapi: maximal number of redirects reached (10)'') c)
                  else if r1 = ''monetdb'' then
                    (case redirect_server r c of
                       (Some e, c') \<Rightarrow> Fail e c'
                     | (None, c') \<Rightarrow> Reconnect c')
                  else Fail (Err (''mapi: unknown redirect: '' @ prompt)) c))
      else Fail (Err (''mapi: unknown state: '' @ prompt)) c)"

lemma prompt_action_Restart: "prompt_action prompt iteration c = Restart \<Longrightarrow> iteration \<le> 10"
  by (auto simp: prompt_action_def Let_def split: if_splits sum.splits prod.splits option.splits)

text \<open>
  \<open>tryLogin\<close> and \<open>Connect\<close>. The results of the calls \<open>c.tryLogin(iteration + 1)\<close> and
  \<open>c.Connect()\<close> inside \<open>tryLogin\<close> are dropped, as in the source; only a panic of
  the callee gets through, since it unwinds the caller. The error of
  \<open>c.putBlock([]byte(response))\<close> is dropped too.
\<close>

function tryLogin :: "crypto \<Rightarrow> int \<Rightarrow> dials \<Rightarrow> MapiConn \<Rightarrow> error option \<times> dials \<times> MapiConn"
  and Connect :: "crypto \<Rightarrow> dials \<Rightarrow> MapiConn \<Rightarrow> error option \<times> dials \<times> MapiConn" where
  "tryLogin h iteration net c =
     (case getBlock c of
        (Inl err, c1) \<Rightarrow> (Some err, net, c1)
      | (Inr challenge, c1) \<Rightarrow>
          (case challengeResponse h challenge c1 of
             Inl err \<Rightarrow> (Some err, net, c1)
           | Inr response \<Rightarrow>
               (case getBlock (snd (putBlock (bytes_of response) c1)) of
                  (Inl err, c3) \<Rightarrow> (None, net, c3)
                | (Inr bprompt, c3) \<Rightarrow>
                    (case prompt_action (TrimSpace (string_of bprompt)) iteration c3 of
                       Accept \<Rightarrow> (None, net, c3\<lparr>State := mapi_STATE_READY\<rparr>)
                     | Fail err c' \<Rightarrow> (Some err, net, c')
                     | Restart \<Rightarrow>
                         (case tryLogin h (iteration + 1) net c3 of
                            (Some (Panic p), net', c4) \<Rightarrow> (Some (Panic p), net', c4)
                          | (ignored, net', c4) \<Rightarrow> (None, net', c4\<lparr>State := mapi_STATE_READY\<rparr>))
                     | Reconnect c' \<Rightarrow>
                         (case Connect h net c' of
                            (Some (Panic p), net', c4) \<Rightarrow> (Some (Panic p), net', c4)
                          | (ignored, net', c4) \<Rightarrow> (None, net', c4\<lparr>State := mapi_STATE_READY\<rparr>))))))"
| "Connect h net c =
     (case net of
        [] \<Rightarrow> (Some (Err ''dial tcp: connection refused''), [], c\<lparr>conn := None\<rparr>)
      | None # net' \<Rightarrow> (Some (Err ''dial tcp: connection refused''), net', c\<lparr>conn := None\<rparr>)
      | Some k # net' \<Rightarrow> tryLogin h 0 net' (c\<lparr>conn := Some k\<rparr>))"
  by pat_completeness auto
termination
  by (relation "measures
        [\<lambda>x. case x of Inl (h, i, net, c) \<Rightarrow> length net | Inr (h, net, c) \<Rightarrow> length net,
         \<lambda>x. case x of Inl (h, i, net, c) \<Rightarrow> Suc (nat (11 - i)) | Inr (h, net, c) \<Rightarrow> 0]")
     (auto dest: prompt_action_Restart)

declare tryLogin.simps [simp del] Connect.simps [simp del]

text \<open>\<open>login\<close> starts the sequence at iteration 0.\<close>

definition login :: "crypto \<Rightarrow> dials \<Rightarrow> MapiConn \<Rightarrow> error option \<times> dials \<times> MapiConn" where
  "login h net c = tryLogin h 0 net c"

section \<open>Result sets (resultset.go, first file)\<close>

record TableElement =
  ColumnName :: string
  ColumnType :: string
  DisplaySize :: int
  InternalSize :: int
  Precision :: int
  Scale :: int
  NullOk :: int

record Metadata =
  ExecId :: int
  LastRowId :: int
  RowCount :: int
  QueryId :: int
  Offset :: int
  ColumnCount :: int

text \<open>
  \<open>Value\<close> is \<open>interface{}\<close> in the source; the values are whatever \<open>convertToGo\<close>
  produces, so the result set is polymorphic in them.
\<close>

record 'v ResultSet =
  Metadata :: Metadata
  Schema :: "TableElement list"
  Rows :: "'v list list"

text \<open>
  \<open>convertToGo\<close> is not part of the files at hand; the functions that use it take it as
  the parameter \<open>conv\<close> (field text and column type to a value or an error).
\<close>

type_synonym 'v converter = "string \<Rightarrow> string \<Rightarrow> error + 'v"

text \<open>The loop of \<open>parseTuple\<close>: convert the fields in order, stop at the first error.\<close>

fun convert_items :: "'v converter \<Rightarrow> string list \<Rightarrow> TableElement list \<Rightarrow> error + 'v list" where
  "convert_items conv [] sch = Inr []"
| "convert_items conv (value # items) [] = Inl (Panic IndexOutOfRange)"
| "convert_items conv (value # items) (e # sch) =
     (case conv value (ColumnType e) of
        Inl err \<Rightarrow> Inl err
      | Inr vv \<Rightarrow> (case convert_items conv items sch of
                    Inl err \<Rightarrow> Inl err
                  | Inr v \<Rightarrow> Inr (vv # v)))"

text \<open>
  \<open>parseTuple\<close> on a receiver that may be \<open>nil\<close> (\<open>None\<close>): the slice \<open>d[1:len(d)-1]\<close>
  panics when \<open>d\<close> has no room for both brackets, and reading \<open>s.Schema\<close> panics on \<open>nil\<close>.
\<close>

definition parseTuple :: "'v converter \<Rightarrow> 'v ResultSet option \<Rightarrow> string \<Rightarrow> error + 'v list" where
  "parseTuple conv s d =
     (if length d < 2 then Inl (Panic SliceBounds)
      else let items = Split (take (length d - 2) (drop 1 d)) [CHR '','', CHR 0x09] in
        case s of
          None \<Rightarrow> Inl (Panic NilDereference)
        | Some rs \<Rightarrow>
            if length items \<noteq> length (Schema rs)
            then Inl (Err ''mapi: length of row doesn't match header'')
            else convert_items conv items (Schema rs))"

text \<open>
  \<open>updateSchema\<close>: one descriptor per column name; every other slice is indexed with the
  position of the name and panics when it is shorter. The receiver is only touched by the
  final assignment \<open>s.Schema = d\<close>.
\<close>

fun updateSchema_loop ::
  "nat \<Rightarrow> string list \<Rightarrow> string list \<Rightarrow> int list \<Rightarrow> int list \<Rightarrow> int list \<Rightarrow> int list \<Rightarrow> int list
     \<Rightarrow> error + TableElement list" where
  "updateSchema_loop i [] columnTypes displaySizes internalSizes precisions scales nullOks = Inr []"
| "updateSchema_loop i (columnName # rest) columnTypes displaySizes internalSizes precisions scales nullOks =
     (if i < length columnTypes \<and> i < length displaySizes \<and> i < length internalSizes
         \<and> i < length precisions \<and> i < length scales \<and> i < length nullOks
      then (case updateSchema_loop (Suc i) rest columnTypes displaySizes internalSizes precisions scales nullOks of
              Inl err \<Rightarrow> Inl err
            | Inr d \<Rightarrow> Inr (\<lparr>ColumnName = columnName, ColumnType = columnTypes ! i,
                             DisplaySize = displaySizes ! i, InternalSize = internalSizes ! i,
                             Precision = precisions ! i, Scale = scales ! i, NullOk = nullOks ! i\<rparr> # d))
      else Inl (Panic IndexOutOfRange))"

definition updateSchema ::
  "'v ResultSet option \<Rightarrow> string list \<Rightarrow> string list \<Rightarrow> int list \<Rightarrow> int list \<Rightarrow> int list \<Rightarrow> int list \<Rightarrow> int list
     \<Rightarrow> error + 'v ResultSet" where
  "updateSchema s columnNames columnTypes displaySizes internalSizes precisions scales nullOks =
     (case updateSchema_loop 0 columnNames columnTypes displaySizes internalSizes precisions scales nullOks of
        Inl err \<Rightarrow> Inl err
      | Inr d \<Rightarrow> (case s of
                    None \<Rightarrow> Inl (Panic NilDereference)
                  | Some rs \<Rightarrow> Inr (rs\<lparr>Schema := d\<rparr>)))"

section \<open>Queries and the response parser (query.go, the version with a result set cursor)\<close>

record 'v query =
  mapi :: "MapiConn option"
  sqlQuery :: string
  resultSets :: "'v ResultSet list"
  currentResultSet :: int

definition NewQuery :: "MapiConn option \<Rightarrow> string \<Rightarrow> 'v query" where
  "NewQuery c q = \<lparr>mapi = c, sqlQuery = q, resultSets = [], currentResultSet = - 1\<rparr>"

text \<open>
  \<open>Result()\<close> is \<open>nil\<close> at cursor -1 and otherwise a pointer to the slice element at the
  cursor; indexing outside the slice panics.
\<close>

definition Result :: "'v query \<Rightarrow> error + 'v ResultSet option" where
  "Result q =
     (if currentResultSet q = - 1 then Inr None
      else if 0 \<le> currentResultSet q \<and> currentResultSet q < int (length (resultSets q))
           then Inr (Some (resultSets q ! nat (currentResultSet q)))
           else Inl (Panic IndexOutOfRange))"

datatype LineType =
  PROMT | INFO | ERROR | QTABLE | QUPDATE | QSCHEMA | QTRANS | QPREPARE | QBLOCK
  | HEADER | TUPLE | REDIRECT | OK | UNKNOWN

definition getLineType :: "string \<Rightarrow> LineType" where
  "getLineType line =
     (if line = mapi_MSG_PROMPT then PROMT
      else if HasPrefix line mapi_MSG_INFO then INFO
      else if HasPrefix line mapi_MSG_ERROR then ERROR
      else if HasPrefix line mapi_MSG_QPREPARE then QPREPARE
      else if HasPrefix line mapi_MSG_QTABLE then QTABLE
      else if HasPrefix line mapi_MSG_TUPLE then TUPLE
      else if HasPrefix line mapi_MSG_QBLOCK then QBLOCK
      else if HasPrefix line mapi_MSG_QSCHEMA then QSCHEMA
      else if HasPrefix line mapi_MSG_QUPDATE then QUPDATE
      else if HasPrefix line mapi_MSG_QTRANS then QTRANS
      else if HasPrefix line mapi_MSG_HEADER then HEADER
      else UNKNOWN)"

definition newResultSet :: "'v query \<Rightarrow> 'v query" where
  "newResultSet q =
     q\<lparr>resultSets := resultSets q @
          [\<lparr>Metadata = \<lparr>ExecId = - 1, LastRowId = 0, RowCount = 0, QueryId = 0, Offset = 0, ColumnCount = 0\<rparr>,
            Schema = [], Rows = []\<rparr>],
       currentResultSet := currentResultSet q + 1\<rparr>"

text \<open>
  An assignment through the cursor, \<open>q.Result().F = rhs\<close>, in Go's order: the call
  \<open>q.Result()\<close>, then the right-hand side, then the store through the pointer (which
  panics on \<open>nil\<close>). The state comes back with the error, as it is when the panic starts.
\<close>

definition assign ::
  "(error + 'a) \<Rightarrow> ('a \<Rightarrow> 'v ResultSet \<Rightarrow> 'v ResultSet) \<Rightarrow> 'v query \<Rightarrow> error option \<times> 'v query" where
  "assign rhs f q =
     (case Result q of
        Inl e \<Rightarrow> (Some e, q)
      | Inr p \<Rightarrow>
          (case rhs of
             Inl e \<Rightarrow> (Some e, q)
           | Inr x \<Rightarrow>
               (case p of
                  None \<Rightarrow> (Some (Panic NilDereference), q)
                | Some rs \<Rightarrow>
                    (None, q\<lparr>resultSets := (resultSets q)[nat (currentResultSet q) := f x rs]\<rparr>))))"

definition andThen ::
  "error option \<times> 's \<Rightarrow> ('s \<Rightarrow> error option \<times> 's) \<Rightarrow> error option \<times> 's" where
  "andThen m f = (case m of (None, s) \<Rightarrow> f s | (Some e, s) \<Rightarrow> (Some e, s))"

definition map_res :: "('a \<Rightarrow> 'b) \<Rightarrow> error + 'a \<Rightarrow> error + 'b" where
  "map_res f r = (case r of Inl e \<Rightarrow> Inl e | Inr x \<Rightarrow> Inr (f x))"

text \<open>The local variables of one \<open>StoreResult\<close> pass.\<close>

record locals =
  columnNames :: "string list"
  columnTypes :: "string list"
  displaySizes :: "int list"
  internalSizes :: "int list"
  precisions :: "int list"
  scales :: "int list"
  nullOks :: "int list"
  addedResultSets :: bool

definition locals0 :: locals where
  "locals0 = \<lparr>columnNames = [], columnTypes = [], displaySizes = [], internalSizes = [],
               precisions = [], scales = [], nullOks = [], addedResultSets = False\<rparr>"

text \<open>What the body of the loop does with one line: go on with new locals, or return.\<close>

datatype 's step = Continue 's | Return "error option"

text \<open>The setters of the fields that \<open>StoreResult\<close> writes through the cursor.\<close>

definition set_ExecId :: "int \<Rightarrow> 'v ResultSet \<Rightarrow> 'v ResultSet" where
  "set_ExecId x rs = rs\<lparr>Metadata := (Metadata rs)\<lparr>ExecId := x\<rparr>\<rparr>"
definition set_QueryId :: "int \<Rightarrow> 'v ResultSet \<Rightarrow> 'v ResultSet" where
  "set_QueryId x rs = rs\<lparr>Metadata := (Metadata rs)\<lparr>QueryId := x\<rparr>\<rparr>"
definition set_RowCount :: "int \<Rightarrow> 'v ResultSet \<Rightarrow> 'v ResultSet" where
  "set_RowCount x rs = rs\<lparr>Metadata := (Metadata rs)\<lparr>RowCount := x\<rparr>\<rparr>"
definition set_ColumnCount :: "int \<Rightarrow> 'v ResultSet \<Rightarrow> 'v ResultSet" where
  "set_ColumnCount x rs = rs\<lparr>Metadata := (Metadata rs)\<lparr>ColumnCount := x\<rparr>\<rparr>"
definition set_LastRowId :: "int \<Rightarrow> 'v ResultSet \<Rightarrow> 'v ResultSet" where
  "set_LastRowId x rs = rs\<lparr>Metadata := (Metadata rs)\<lparr>LastRowId := x\<rparr>\<rparr>"
definition set_Offset :: "int \<Rightarrow> 'v ResultSet \<Rightarrow> 'v ResultSet" where
  "set_Offset x rs = rs\<lparr>Metadata := (Metadata rs)\<lparr>Offset := x\<rparr>\<rparr>"
definition set_Rows :: "'v list list \<Rightarrow> 'v ResultSet \<Rightarrow> 'v ResultSet" where
  "set_Rows x rs = rs\<lparr>Rows := x\<rparr>"
definition set_Schema :: "TableElement list \<Rightarrow> 'v ResultSet \<Rightarrow> 'v ResultSet" where
  "set_Schema x rs = rs\<lparr>Schema := x\<rparr>"

text \<open>The branches of the loop body of \<open>StoreResult\<close>, one per line type.\<close>

definition storeQPREPARE :: "string \<Rightarrow> locals \<Rightarrow> 'v query \<Rightarrow> locals step \<times> 'v query" where
  "storeQPREPARE line vs q =
     (let q1 = newResultSet q;
          t = Split (TrimSpace (drop 2 line)) '' ''
      in case assign (map_res Atoi (index t 0)) set_ExecId q1 of
           (Some e, q2) \<Rightarrow> (Return (Some e), q2)
         | (None, q2) \<Rightarrow> (Return None, q2))"

definition storeQTABLE :: "string \<Rightarrow> locals \<Rightarrow> 'v query \<Rightarrow> locals step \<times> 'v query" where
  "storeQTABLE line vs q =
     (let q1 = newResultSet q;
          t = Split (TrimSpace (drop 2 line)) '' ''
      in case andThen (assign (map_res Atoi (index t 0)) set_QueryId q1)
                (\<lambda>q. andThen (assign (map_res Atoi (index t 1)) set_RowCount q)
                        (assign (map_res Atoi (index t 2)) set_ColumnCount)) of
           (Some e, q2) \<Rightarrow> (Return (Some e), q2)
         | (None, q2) \<Rightarrow>
             (case Result q2 of
                Inl e \<Rightarrow> (Return (Some e), q2)
              | Inr None \<Rightarrow> (Return (Some (Panic NilDereference)), q2)
              | Inr (Some rs) \<Rightarrow>
                  (case make_slice (ColumnCount (Metadata rs)) [] of
                     Inl e \<Rightarrow> (Return (Some e), q2)
                   | Inr strs \<Rightarrow>
                       (case make_slice (ColumnCount (Metadata rs)) 0 of
                          Inl e \<Rightarrow> (Return (Some e), q2)
                        | Inr ints \<Rightarrow>
                            (Continue (vs\<lparr>columnNames := strs, columnTypes := strs,
                                          displaySizes := ints, internalSizes := ints,
                                          precisions := ints, scales := ints, nullOks := ints,
                                          addedResultSets := True\<rparr>), q2)))))"

definition storeTUPLE :: "'v converter \<Rightarrow> string \<Rightarrow> locals \<Rightarrow> 'v query \<Rightarrow> locals step \<times> 'v query" where
  "storeTUPLE conv line vs q =
     (case Result q of
        Inl e \<Rightarrow> (Return (Some e), q)
      | Inr s \<Rightarrow>
          (case parseTuple conv s line of
             Inl err \<Rightarrow> (Return (Some err), q)
           | Inr v \<Rightarrow>
               (case assign (Inr v) (\<lambda>v rs. set_Rows (Rows rs @ [v]) rs) q of
                  (Some e, q2) \<Rightarrow> (Return (Some e), q2)
                | (None, q2) \<Rightarrow> (Continue vs, q2))))"

definition storeQBLOCK :: "locals \<Rightarrow> 'v query \<Rightarrow> locals step \<times> 'v query" where
  "storeQBLOCK vs q =
     (case assign (Inr []) set_Rows q of
        (Some e, q2) \<Rightarrow> (Return (Some e), q2)
      | (None, q2) \<Rightarrow> (Continue vs, q2))"

text \<open>The branches for \<open>QSCHEMA\<close> and \<open>QTRANS\<close> have the same body.\<close>

definition storeQSCHEMA :: "locals \<Rightarrow> 'v query \<Rightarrow> locals step \<times> 'v query" where
  "storeQSCHEMA vs q =
     (case andThen (assign (Inr 0) set_Offset (newResultSet q))
             (\<lambda>q. andThen (assign (Inr []) set_Rows q)
                (\<lambda>q. andThen (assign (Inr 0) set_LastRowId q)
                   (\<lambda>q. andThen (assign (Inr []) set_Schema q)
                      (assign (Inr 0) set_RowCount)))) of
        (Some e, q2) \<Rightarrow> (Return (Some e), q2)
      | (None, q2) \<Rightarrow> (Continue (vs\<lparr>addedResultSets := True\<rparr>), q2))"

definition storeQUPDATE :: "string \<Rightarrow> locals \<Rightarrow> 'v query \<Rightarrow> locals step \<times> 'v query" where
  "storeQUPDATE line vs q =
     (let q1 = (if currentResultSet q = - 1 then newResultSet q else q);
          vs1 = (if currentResultSet q = - 1 then vs\<lparr>addedResultSets := True\<rparr> else vs);
          t = Split (TrimSpace (drop 2 line)) '' ''
      in case andThen (assign (map_res Atoi (index t 0)) set_RowCount q1)
                (assign (map_res Atoi (index t 1)) set_LastRowId) of
           (Some e, q2) \<Rightarrow> (Return (Some e), q2)
         | (None, q2) \<Rightarrow> (Continue vs1, q2))"

text \<open>
  The three loops of the \<open>HEADER\<close> branch. \<open>typesizes\<close>: the first number of every value
  goes to \<open>internalSizes[i]\<close>, all of them to \<open>sizes[i]\<close>; then every column of type
  \<open>decimal\<close> takes precision and scale from \<open>sizes[j]\<close>. \<open>length\<close>: the first number of
  every value goes to \<open>displaySizes[i]\<close>.
\<close>

fun typesizes_loop ::
  "nat \<Rightarrow> string list \<Rightarrow> int list \<Rightarrow> int list list \<Rightarrow> error + (int list \<times> int list list)" where
  "typesizes_loop i [] isz sizes = Inr (isz, sizes)"
| "typesizes_loop i (value # values) isz sizes =
     (let s = map Atoi (Split value '' '') in
      case index s 0 of
        Inl e \<Rightarrow> Inl e
      | Inr s0 \<Rightarrow>
          if i < length isz \<and> i < length sizes
          then typesizes_loop (Suc i) values (isz[i := s0]) (sizes[i := s])
          else Inl (Panic IndexOutOfRange))"

fun decimal_loop ::
  "nat \<Rightarrow> string list \<Rightarrow> int list list \<Rightarrow> int list \<Rightarrow> int list \<Rightarrow> error + (int list \<times> int list)" where
  "decimal_loop j [] sizes prec scal = Inr (prec, scal)"
| "decimal_loop j (t # ts) sizes prec scal =
     (if t = ''decimal''
      then (if j < length sizes \<and> 0 < length (sizes ! j) \<and> j < length prec
            then (if 1 < length (sizes ! j) \<and> j < length scal
                  then decimal_loop (Suc j) ts sizes (prec[j := sizes ! j ! 0])
                         (scal[j := sizes ! j ! 1])
                  else Inl (Panic IndexOutOfRange))
            else Inl (Panic IndexOutOfRange))
      else decimal_loop (Suc j) ts sizes prec scal)"

fun length_loop :: "nat \<Rightarrow> string list \<Rightarrow> int list \<Rightarrow> error + int list" where
  "length_loop i [] dsz = Inr dsz"
| "length_loop i (value # values) dsz =
     (let s = map Atoi (Split value '' '') in
      case index s 0 of
        Inl e \<Rightarrow> Inl e
      | Inr s0 \<Rightarrow>
          if i < length dsz
          then length_loop (Suc i) values (dsz[i := s0])
          else Inl (Panic IndexOutOfRange))"

definition headerLocals :: "string \<Rightarrow> string list \<Rightarrow> locals \<Rightarrow> error + locals" where
  "headerLocals identity values vs =
     (if identity = ''name'' then Inr (vs\<lparr>columnNames := values\<rparr>)
      else if identity = ''type'' then Inr (vs\<lparr>columnTypes := values\<rparr>)
      else if identity = ''typesizes'' then
        (case typesizes_loop 0 values (internalSizes vs) (replicate (length values) []) of
           Inl e \<Rightarrow> Inl e
         | Inr (isz, sizes) \<Rightarrow>
             (case decimal_loop 0 (columnTypes vs) sizes (precisions vs) (scales vs) of
                Inl e \<Rightarrow> Inl e
              | Inr (ps, ss) \<Rightarrow> Inr (vs\<lparr>internalSizes := isz, precisions := ps, scales := ss\<rparr>)))
      else if identity = ''length'' then
        (case length_loop 0 values (displaySizes vs) of
           Inl e \<Rightarrow> Inl e
         | Inr ds \<Rightarrow> Inr (vs\<lparr>displaySizes := ds\<rparr>))
      else Inr vs)"

definition storeHEADER :: "string \<Rightarrow> locals \<Rightarrow> 'v query \<Rightarrow> locals step \<times> 'v query" where
  "storeHEADER line vs q =
     (let t = Split (drop 1 line) ''#'' in
      case index t 0 of
        Inl e \<Rightarrow> (Return (Some e), q)
      | Inr t0 \<Rightarrow>
      (case index t 1 of
        Inl e \<Rightarrow> (Return (Some e), q)
      | Inr t1 \<Rightarrow>
      (let data = TrimSpace t0;
           identity = TrimSpace t1;
           values = map TrimSpace (Split data '','')
       in case headerLocals identity values vs of
            Inl e \<Rightarrow> (Return (Some e), q)
          | Inr vs1 \<Rightarrow>
              (case Result q of
                 Inl e \<Rightarrow> (Return (Some e), q)
               | Inr s \<Rightarrow>
                   (case updateSchema s (columnNames vs1) (columnTypes vs1) (displaySizes vs1)
                           (internalSizes vs1) (precisions vs1) (scales vs1) (nullOks vs1) of
                      Inl e \<Rightarrow> (Return (Some e), q)
                    | Inr rs \<Rightarrow>
                        (case andThen (assign (Inr rs) (\<lambda>x old. x) q)
                                (\<lambda>q. andThen (assign (Inr 0) set_Offset q)
                                        (assign (Inr 0) set_LastRowId)) of
                           (Some e, q2) \<Rightarrow> (Return (Some e), q2)
                         | (None, q2) \<Rightarrow> (Continue vs1, q2)))))))"

definition StoreLine :: "'v converter \<Rightarrow> string \<Rightarrow> locals \<Rightarrow> 'v query \<Rightarrow> locals step \<times> 'v query" where
  "StoreLine conv line vs q =
     (let lineType = getLineType line in
      if lineType = INFO then (Continue vs, q)
      else if lineType = QPREPARE then storeQPREPARE line vs q
      else if lineType = QTABLE then storeQTABLE line vs q
      else if lineType = TUPLE then storeTUPLE conv line vs q
      else if lineType = QBLOCK then storeQBLOCK vs q
      else if lineType = QSCHEMA then storeQSCHEMA vs q
      else if lineType = QUPDATE then storeQUPDATE line vs q
      else if lineType = QTRANS then storeQSCHEMA vs q
      else if lineType = HEADER then storeHEADER line vs q
      else if lineType = PROMT then
        (Return None, if addedResultSets vs then q\<lparr>currentResultSet := 0\<rparr> else q)
      else if lineType = ERROR then
        (Return (Some (Err (''mapi: database error: '' @ drop 1 line))), q)
      else if lineType = UNKNOWN then
        (Return (Some (Err (''mapi: protocol error: '' @ line))), q)
      else (Continue vs, q))"

text \<open>The loop over the lines of the response, and the error after the last line.\<close>

fun StoreLines ::
  "'v converter \<Rightarrow> string \<Rightarrow> string list \<Rightarrow> locals \<Rightarrow> 'v query \<Rightarrow> error option \<times> 'v query" where
  "StoreLines conv r [] vs q = (Some (Err (''mapi: unknown state: '' @ r)), q)"
| "StoreLines conv r (line # lines) vs q =
     (case StoreLine conv line vs q of
        (Return e, q') \<Rightarrow> (e, q')
      | (Continue vs', q') \<Rightarrow> StoreLines conv r lines vs' q')"

definition StoreResult :: "'v converter \<Rightarrow> string \<Rightarrow> 'v query \<Rightarrow> error option \<times> 'v query" where
  "StoreResult conv r q = StoreLines conv r (Split r [CHR 0x0A]) locals0 q"

definition HasNextResultSet :: "'v query \<Rightarrow> bool" where
  "HasNextResultSet q =
     (currentResultSet q \<noteq> - 1 \<and> int (length (resultSets q)) > currentResultSet q + 1)"

definition NextResultSet :: "'v query \<Rightarrow> error option \<times> 'v query" where
  "NextResultSet q =
     (if HasNextResultSet q then (None, q\<lparr>currentResultSet := currentResultSet q + 1\<rparr>)
      else (Some EOF, q))"

text \<open>
  \<open>FetchNext\<close> of the query: the query id comes from the result set at the cursor
  (indexing outside the slice panics), and the call goes to the connection, which is an
  interface value that may be \<open>nil\<close>; the method of the connection is \<open>fetchNext\<close>
  of resultset.go.
\<close>

definition FetchNext :: "int \<Rightarrow> int \<Rightarrow> 'v query \<Rightarrow> (error + string) \<times> 'v query" where
  "FetchNext offset amount q =
     (if 0 \<le> currentResultSet q \<and> currentResultSet q < int (length (resultSets q))
      then (case mapi q of
              None \<Rightarrow> (Inl (Panic NilDereference), q)
            | Some m \<Rightarrow>
                (case fetchNext (QueryId (Metadata (resultSets q ! nat (currentResultSet q))))
                        offset amount m of
                   (res, m') \<Rightarrow> (res, q\<lparr>mapi := Some m'\<rparr>)))
      else (Inl (Panic IndexOutOfRange), q))"

section \<open>The rows cursor of the driver (rows.go)\<close>

text \<open>
  The driver's values (\<open>driver.Value\<close>) are a type parameter. Three conversions are not
  part of the files at hand or belong to Go's type system, and are parameters of the
  model: \<open>convertToGo\<close> (for \<open>StoreResult\<close>), \<open>convertRows\<close>, and the type switch of
  \<open>Next\<close> that turns a string value into a byte slice and leaves every other value as
  it is.
\<close>

record ('v, 'd) conversions =
  convertToGo :: "'v converter"
  convertRows :: "'v list list \<Rightarrow> int \<Rightarrow> 'd list list"
  stringAsBytes :: "'d \<Rightarrow> 'd"

text \<open>The field \<open>err\<close> of the source is \<open>rows_err\<close> here.\<close>

record ('v, 'd) Rows =
  query :: "'v query"
  active :: bool
  rows_err :: "error option"
  rowNum :: int
  offset :: int
  rows :: "'d list list"
  schema :: "TableElement list"

definition newRows :: "'v query \<Rightarrow> ('v, 'd) Rows" where
  "newRows q = \<lparr>query = q, active = True, rows_err = None, rowNum = 0, offset = 0, rows = [], schema = []\<rparr>"

definition Close :: "('v, 'd) Rows \<Rightarrow> error option \<times> ('v, 'd) Rows" where
  "Close r = (None, r\<lparr>active := False\<rparr>)"

text \<open>\<open>min\<close> of rows.go.\<close>

definition min_int :: "int \<Rightarrow> int \<Rightarrow> int" where
  "min_int a b = (if a < b then a else b)"

text \<open>
  \<open>mapiDo\<close> runs \<open>FetchNext\<close> in a goroutine and waits for its result or for the
  context; \<open>fetchNext\<close> passes \<open>context.Background()\<close>, which is never done, so the
  result is always the one of \<open>FetchNext\<close>.
\<close>

definition mapiDo :: "int \<Rightarrow> ('v, 'd) Rows \<Rightarrow> (error + string) \<times> ('v, 'd) Rows" where
  "mapiDo amount s =
     (case FetchNext (offset s) amount (query s) of
        (res, q) \<Rightarrow> (res, s\<lparr>query := q\<rparr>))"

text \<open>
  \<open>fetchNext\<close> of the rows: the offset moves to the end of the buffered window before
  the command is sent, the error of \<open>StoreResult\<close> is dropped (a panic is not), and the
  rows of the current result set replace the buffered window.
\<close>

definition Rows_fetchNext :: "('v, 'd) conversions \<Rightarrow> ('v, 'd) Rows \<Rightarrow> error option \<times> ('v, 'd) Rows" where
  "Rows_fetchNext lib r =
     (case Result (query r) of
        Inl e \<Rightarrow> (Some e, r)
      | Inr None \<Rightarrow> (Some (Panic NilDereference), r)
      | Inr (Some rs) \<Rightarrow>
          if rowNum r \<ge> RowCount (Metadata rs) then (Some EOF, r)
          else
            (let r1 = r\<lparr>offset := offset r + int (length (rows r))\<rparr>;
                 end = min_int (RowCount (Metadata rs)) (rowNum r1 + MAPI_ARRAY_SIZE);
                 amount = end - offset r1
             in case mapiDo amount r1 of
                  (Inl e, r2) \<Rightarrow> (Some e, r2)
                | (Inr res, r2) \<Rightarrow>
                    (case StoreResult (convertToGo lib) res (query r2) of
                       (Some (Panic p), q3) \<Rightarrow> (Some (Panic p), r2\<lparr>query := q3\<rparr>)
                     | (ignored, q3) \<Rightarrow>
                         (case Result q3 of
                            Inl e \<Rightarrow> (Some e, r2\<lparr>query := q3\<rparr>)
                          | Inr None \<Rightarrow> (Some (Panic NilDereference), r2\<lparr>query := q3\<rparr>)
                          | Inr (Some rs3) \<Rightarrow>
                              (None, r2\<lparr>query := q3,
                                        rows := convertRows lib (Rows rs3) (ColumnCount (Metadata rs3)),
                                        schema := Schema rs3\<rparr>)))))"

text \<open>The loop of \<open>Next\<close> that copies the row into \<open>dest\<close>.\<close>

fun copy_row :: "('d \<Rightarrow> 'd) \<Rightarrow> nat \<Rightarrow> 'd list \<Rightarrow> 'd list \<Rightarrow> error option \<times> 'd list" where
  "copy_row f i [] dest = (None, dest)"
| "copy_row f i (v # vs) dest =
     (if i < length dest then copy_row f (Suc i) vs (dest[i := f v])
      else (Some (Panic IndexOutOfRange), dest))"

definition Next :: "('v, 'd) conversions \<Rightarrow> 'd list \<Rightarrow> ('v, 'd) Rows \<Rightarrow> error option \<times> 'd list \<times> ('v, 'd) Rows" where
  "Next lib dest r =
     (if \<not> active r then (Some (Err ''monetdb: rows closed''), dest, r)
      else case Result (query r) of
             Inl e \<Rightarrow> (Some e, dest, r)
           | Inr None \<Rightarrow> (Some (Panic NilDereference), dest, r)
           | Inr (Some rs) \<Rightarrow>
               if QueryId (Metadata rs) = - 1 then
                 (Some (Err ''monetdb: query didn't result in a resultset''), dest, r)
               else if rowNum r \<ge> RowCount (Metadata rs) then (Some EOF, dest, r)
               else
                 (case (if rowNum r \<ge> offset r + int (length (rows r)) then Rows_fetchNext lib r
                        else (None, r)) of
                    (Some e, r1) \<Rightarrow> (Some e, dest, r1)
                  | (None, r1) \<Rightarrow>
                      if 0 \<le> rowNum r1 - offset r1 \<and> rowNum r1 - offset r1 < int (length (rows r1))
                      then (case copy_row (stringAsBytes lib) 0
                                   (rows r1 ! nat (rowNum r1 - offset r1)) dest of
                              (Some e, dest') \<Rightarrow> (Some e, dest', r1)
                            | (None, dest') \<Rightarrow> (None, dest', r1\<lparr>rowNum := rowNum r1 + 1\<rparr>))
                      else (Some (Panic IndexOutOfRange), dest, r1)))"

section \<open>Vocabulary of the properties\<close>

text \<open>
  The shape of a query is its cursor and the number of its result sets, together with
  the connection and the SQL text, which the parser never touches. \<open>cursor_ok\<close> is
  the invariant of the cursor: either there is no result set and the cursor is -1, or the
  cursor points at an existing result set.
\<close>

definition cursor_ok :: "'v query \<Rightarrow> bool" where
  "cursor_ok q = ((currentResultSet q = - 1 \<and> resultSets q = [])
                  \<or> (0 \<le> currentResultSet q \<and> currentResultSet q < int (length (resultSets q))))"

definition same_shape :: "'v query \<Rightarrow> 'v query \<Rightarrow> bool" where
  "same_shape q q' = (currentResultSet q' = currentResultSet q
                      \<and> length (resultSets q') = length (resultSets q)
                      \<and> mapi q' = mapi q \<and> sqlQuery q' = sqlQuery q)"

text \<open>
  The lines of a pass that the loop body runs through without returning, and the locals
  and the query after them; \<open>None\<close> when one of the lines makes \<open>StoreResult\<close> return.
\<close>

fun ContinueLines ::
  "'v converter \<Rightarrow> string list \<Rightarrow> locals \<Rightarrow> 'v query \<Rightarrow> (locals \<times> 'v query) option" where
  "ContinueLines conv [] vs q = Some (vs, q)"
| "ContinueLines conv (line # lines) vs q =
     (case StoreLine conv line vs q of
        (Continue vs', q') \<Rightarrow> ContinueLines conv lines vs' q'
      | (Return e, q') \<Rightarrow> None)"

text \<open>
  The invariant of the loop of \<open>StoreResult\<close> started on \<open>q0\<close>: the flag
  \<open>addedResultSets\<close> is set exactly when the pass has appended a result set, and
  until then the cursor has not moved.
\<close>

definition pass_inv :: "'v query \<Rightarrow> locals \<Rightarrow> 'v query \<Rightarrow> bool" where
  "pass_inv q0 vs q =
     (cursor_ok q \<and> length (resultSets q0) \<le> length (resultSets q)
      \<and> (addedResultSets vs \<longleftrightarrow> length (resultSets q0) < length (resultSets q))
      \<and> (\<not> addedResultSets vs \<longrightarrow> currentResultSet q = currentResultSet q0))"

text \<open>
  The framing as section 4.1 and section 6 of the specification describe it, to compare
  \<open>putBlock\<close> with: the payload is cut into chunks of at most 8190 bytes, a chunk of
  8190 bytes is always followed by another one, and every chunk is sent behind the two
  bytes, little-endian, of \<open>(length << 1) | last_flag\<close>, the flag being 1 on the final
  chunk only.
\<close>

definition header :: "nat \<Rightarrow> bool \<Rightarrow> byte list" where
  "header n last_flag =
     put_le16 (push_bit 1 (word_of_nat n) OR (if last_flag then 1 else 0))"

function chunks :: "byte list \<Rightarrow> byte list list" where
  "chunks b =
     (if length b < mapi_MAX_PACKAGE_LENGTH then [b]
      else take mapi_MAX_PACKAGE_LENGTH b # chunks (drop mapi_MAX_PACKAGE_LENGTH b))"
  by pat_completeness auto
termination
  by (relation "measure length") (auto simp: mapi_MAX_PACKAGE_LENGTH_def)

declare chunks.simps [simp del]

fun frames :: "byte list list \<Rightarrow> byte list" where
  "frames [] = []"
| "frames (ch # chs) = header (length ch) (chs = []) @ ch @ frames chs"

text \<open>
  A stream that arrives whole: one segment that holds all the bytes, so that every
  \<open>Read\<close> returns as many bytes as it asks for.
\<close>

definition seg :: "byte list \<Rightarrow> byte list list" where
  "seg s = (if s = [] then [] else [s])"

text \<open>A connection handle for the examples: nothing to read, nothing written, a link that holds.\<close>

definition sample_conn :: MapiConn where
  "sample_conn =
     \<lparr>Hostname = ''localhost'', Port = 50000, Username = ''monetdb'', Password = ''monetdb'',
      Database = ''demo'', Language = ''sql'', State = mapi_STATE_INIT, sizeHeader = True,
      replySize = MAPI_ARRAY_SIZE, autoCommit = True,
      conn = Some \<lparr>rx = [], tx = [], tx_left = None\<rparr>\<rparr>"

text \<open>
  For the examples of the handshake: stand-ins for the three digests (the theorems hold
  for every \<open>crypto\<close>), the stream of a server that sends the given messages one after
  the other, a handle connected to a given stream, and messages of the server.
\<close>

definition example_crypto :: crypto where
  "example_crypto =
     \<lparr>SHA512 = (\<lambda>s. take 4 (bytes_of s)), SHA1 = (\<lambda>s. take 3 (bytes_of s)),
      MD5 = (\<lambda>s. take 2 (bytes_of s))\<rparr>"

definition server_says :: "string list \<Rightarrow> byte list list" where
  "server_says msgs = seg (concat (map (\<lambda>s. frames (chunks (bytes_of s))) msgs))"

definition on_stream :: "byte list list \<Rightarrow> MapiConn" where
  "on_stream s = sample_conn\<lparr>conn := Some \<lparr>rx = s, tx = [], tx_left = None\<rparr>\<rparr>"

definition challenge_sha1_md5 :: string where
  "challenge_sha1_md5 = ''s4lt:mserver:9:MD5,SHA1:LIT:SHA512:''"

definition challenge_md5 :: string where
  "challenge_md5 = ''s4lt:mserver:9:RIPEMD160,MD5:LIT:SHA512:''"

definition redirect_merovingian :: string where
  "redirect_merovingian = ''^mapi:merovingian://proxy?database=demo''"

text \<open>
  The stream of a meta-proxy that answers \<open>n\<close> logins with a redirect to itself and
  then closes the connection.
\<close>

definition redirect_chain :: "nat \<Rightarrow> byte list list" where
  "redirect_chain n = server_says (concat (replicate n [challenge_sha1_md5, redirect_merovingian]))"

text \<open>A converter for the examples: every field stays the text it is.\<close>

definition textValue :: "string converter" where
  "textValue value dataType = Inr value"


definition rows_inv :: "('v, 'd) Rows \<Rightarrow> bool" where
  "rows_inv r = (offset r \<le> rowNum r \<and> rowNum r \<le> offset r + int (length (rows r)))"



text \<open>
  The queries that exist at run time: built by \<open>NewQuery\<close> and changed by
  \<open>StoreResult\<close> and \<open>NextResultSet\<close> only (the fields are not exported).
\<close>

inductive reachable :: "'v converter \<Rightarrow> 'v query \<Rightarrow> bool" for conv :: "'v converter" where
  new: "reachable conv (NewQuery c s)"
| store: "reachable conv q \<Longrightarrow> reachable conv (snd (StoreResult conv r q))"
| advance: "reachable conv q \<Longrightarrow> reachable conv (snd (NextResultSet q))"

text \<open>Example responses of the server.\<close>

definition response_two_tables :: string where
  "response_two_tables =
     ''&1 7 1 1 1'' @ [CHR 0x0A] @ ''% a # name'' @ [CHR 0x0A] @ ''[ 1 ]'' @ [CHR 0x0A] @
     ''&1 8 1 1 1'' @ [CHR 0x0A] @ ''% b # name'' @ [CHR 0x0A] @ ''[ 2 ]'' @ [CHR 0x0A]"

definition response_short_tuple :: string where
  "response_short_tuple =
     ''&1 7 3 2 3'' @ [CHR 0x0A] @ ''% a, b # name'' @ [CHR 0x0A] @ ''[ 1 ]'' @ [CHR 0x0A]"

definition response_prepare :: string where
  "response_prepare = ''&5 12 1 6 1''"

section \<open>How one line changes the shape of the query\<close>

lemma same_shape_refl [simp]: "same_shape q q"
  by (simp add: same_shape_def)

lemma same_shape_trans: "same_shape q q1 \<Longrightarrow> same_shape q1 q2 \<Longrightarrow> same_shape q q2"
  by (simp add: same_shape_def)

lemma assign_shape: "assign rhs f q = (e, q') \<Longrightarrow> same_shape q q'"
  by (auto simp: assign_def same_shape_def split: sum.splits option.splits)

lemma andThen_shape:
  assumes "andThen m f = (e, q')"
    and "\<And>e1 q1. m = (e1, q1) \<Longrightarrow> same_shape q q1"
    and "\<And>s e2 q2. f s = (e2, q2) \<Longrightarrow> same_shape s q2"
  shows "same_shape q q'"
proof (cases m)
  case (Pair e1 s)
  show ?thesis
  proof (cases e1)
    case None
    with Pair assms(1) have "f s = (e, q')" by (simp add: andThen_def)
    with assms(2) [OF Pair] assms(3) show ?thesis
      by (blast intro: same_shape_trans)
  next
    case (Some a)
    with Pair assms(1) have "q' = s" by (simp add: andThen_def)
    with assms(2) [OF Pair] show ?thesis by simp
  qed
qed

lemma newResultSet_shape:
  "currentResultSet (newResultSet q) = currentResultSet q + 1"
  "length (resultSets (newResultSet q)) = length (resultSets q) + 1"
  "mapi (newResultSet q) = mapi q"
  "sqlQuery (newResultSet q) = sqlQuery q"
  by (simp_all add: newResultSet_def)

lemma storeQPREPARE_shape:
  "storeQPREPARE line vs q = (st, q') \<Longrightarrow> same_shape (newResultSet q) q'"
  by (auto simp: storeQPREPARE_def Let_def split: prod.splits option.splits
           elim: assign_shape)

lemma storeQPREPARE_returns: "storeQPREPARE line vs q \<noteq> (Continue vs', q')"
  by (auto simp: storeQPREPARE_def Let_def split: prod.splits option.splits)

lemma storeQTABLE_shape:
  "storeQTABLE line vs q = (st, q') \<Longrightarrow> same_shape (newResultSet q) q'"
  unfolding storeQTABLE_def Let_def
  by (auto split: prod.splits option.splits sum.splits
           elim!: andThen_shape assign_shape)

lemma storeQTABLE_added:
  "storeQTABLE line vs q = (Continue vs', q') \<Longrightarrow> addedResultSets vs'"
  by (auto simp: storeQTABLE_def Let_def split: prod.splits option.splits sum.splits)

lemma storeTUPLE_shape: "storeTUPLE conv line vs q = (st, q') \<Longrightarrow> same_shape q q'"
  by (auto simp: storeTUPLE_def split: prod.splits option.splits sum.splits
           elim: assign_shape)

lemma storeTUPLE_added:
  "storeTUPLE conv line vs q = (Continue vs', q') \<Longrightarrow> vs' = vs"
  by (auto simp: storeTUPLE_def split: prod.splits option.splits sum.splits)

lemma storeQBLOCK_shape: "storeQBLOCK vs q = (st, q') \<Longrightarrow> same_shape q q'"
  by (auto simp: storeQBLOCK_def split: prod.splits option.splits sum.splits
           elim: assign_shape)

lemma storeQBLOCK_added:
  "storeQBLOCK vs q = (Continue vs', q') \<Longrightarrow> vs' = vs"
  by (auto simp: storeQBLOCK_def split: prod.splits option.splits sum.splits)

lemma storeQSCHEMA_shape: "storeQSCHEMA vs q = (st, q') \<Longrightarrow> same_shape (newResultSet q) q'"
  unfolding storeQSCHEMA_def
  by (auto split: prod.splits option.splits elim!: andThen_shape assign_shape)

lemma storeQSCHEMA_added:
  "storeQSCHEMA vs q = (Continue vs', q') \<Longrightarrow> addedResultSets vs'"
  by (auto simp: storeQSCHEMA_def split: prod.splits option.splits)

lemma storeQUPDATE_shape:
  "storeQUPDATE line vs q = (st, q') \<Longrightarrow>
     same_shape (if currentResultSet q = - 1 then newResultSet q else q) q'"
  unfolding storeQUPDATE_def Let_def
  by (auto split: prod.splits option.splits elim!: andThen_shape assign_shape)

lemma storeQUPDATE_added:
  "storeQUPDATE line vs q = (Continue vs', q') \<Longrightarrow>
     addedResultSets vs' = (addedResultSets vs \<or> currentResultSet q = - 1)"
  by (auto simp: storeQUPDATE_def Let_def split: prod.splits option.splits)

lemma headerLocals_added:
  "headerLocals identity values vs = Inr vs' \<Longrightarrow> addedResultSets vs' = addedResultSets vs"
  by (auto simp: headerLocals_def split: if_splits sum.splits prod.splits)

lemma storeHEADER_shape: "storeHEADER line vs q = (st, q') \<Longrightarrow> same_shape q q'"
  unfolding storeHEADER_def Let_def
  by (auto split: prod.splits option.splits sum.splits elim!: andThen_shape assign_shape)

lemma storeHEADER_added:
  "storeHEADER line vs q = (Continue vs', q') \<Longrightarrow> addedResultSets vs' = addedResultSets vs"
  unfolding storeHEADER_def Let_def
  by (auto split: prod.splits option.splits sum.splits dest: headerLocals_added)


lemma StoreLine_Continue:
  assumes "StoreLine conv line vs q = (Continue vs', q')"
  shows "(same_shape q q' \<and> addedResultSets vs' = addedResultSets vs)
         \<or> (same_shape (newResultSet q) q' \<and> addedResultSets vs')"
proof -
  consider (info) "getLineType line = INFO" | (prep) "getLineType line = QPREPARE"
    | (table) "getLineType line = QTABLE" | (tuple) "getLineType line = TUPLE"
    | (block) "getLineType line = QBLOCK" | (schema) "getLineType line = QSCHEMA"
    | (update) "getLineType line = QUPDATE" | (trans) "getLineType line = QTRANS"
    | (header) "getLineType line = HEADER" | (prompt) "getLineType line = PROMT"
    | (error) "getLineType line = ERROR" | (unknown) "getLineType line = UNKNOWN"
    | (other) "getLineType line = REDIRECT \<or> getLineType line = OK"
    by (cases "getLineType line") auto
  then show ?thesis
  proof cases
    case info with assms show ?thesis by (simp add: StoreLine_def)
  next
    case prep with assms show ?thesis
      by (simp add: StoreLine_def storeQPREPARE_returns)
  next
    case table with assms show ?thesis
      by (auto simp: StoreLine_def dest: storeQTABLE_shape storeQTABLE_added)
  next
    case tuple with assms show ?thesis
      by (auto simp: StoreLine_def dest: storeTUPLE_shape storeTUPLE_added)
  next
    case block with assms show ?thesis
      by (auto simp: StoreLine_def dest: storeQBLOCK_shape storeQBLOCK_added)
  next
    case schema with assms show ?thesis
      by (auto simp: StoreLine_def dest: storeQSCHEMA_shape storeQSCHEMA_added)
  next
    case update
    with assms have u: "storeQUPDATE line vs q = (Continue vs', q')"
      by (simp add: StoreLine_def)
    from storeQUPDATE_shape [OF u] storeQUPDATE_added [OF u] show ?thesis
      by (auto split: if_splits)
  next
    case trans with assms show ?thesis
      by (auto simp: StoreLine_def dest: storeQSCHEMA_shape storeQSCHEMA_added)
  next
    case header with assms show ?thesis
      by (auto simp: StoreLine_def dest: storeHEADER_shape storeHEADER_added)
  next
    case prompt with assms show ?thesis by (simp add: StoreLine_def)
  next
    case error with assms show ?thesis by (simp add: StoreLine_def)
  next
    case unknown with assms show ?thesis by (simp add: StoreLine_def)
  next
    case other with assms show ?thesis by (auto simp: StoreLine_def)
  qed
qed

lemma StoreLine_Return:
  assumes "StoreLine conv line vs q = (Return e, q')"
  shows "same_shape q q' \<or> same_shape (newResultSet q) q'
         \<or> (getLineType line = PROMT \<and> e = None \<and> addedResultSets vs \<and> q' = q\<lparr>currentResultSet := 0\<rparr>)"
proof -
  consider (info) "getLineType line = INFO" | (prep) "getLineType line = QPREPARE"
    | (table) "getLineType line = QTABLE" | (tuple) "getLineType line = TUPLE"
    | (block) "getLineType line = QBLOCK" | (schema) "getLineType line = QSCHEMA"
    | (update) "getLineType line = QUPDATE" | (trans) "getLineType line = QTRANS"
    | (header) "getLineType line = HEADER" | (prompt) "getLineType line = PROMT"
    | (error) "getLineType line = ERROR" | (unknown) "getLineType line = UNKNOWN"
    | (other) "getLineType line = REDIRECT \<or> getLineType line = OK"
    by (cases "getLineType line") auto
  then show ?thesis
  proof cases
    case info with assms show ?thesis by (simp add: StoreLine_def)
  next
    case prep with assms show ?thesis
      by (auto simp: StoreLine_def dest: storeQPREPARE_shape)
  next
    case table with assms show ?thesis
      by (auto simp: StoreLine_def dest: storeQTABLE_shape)
  next
    case tuple with assms show ?thesis
      by (auto simp: StoreLine_def dest: storeTUPLE_shape)
  next
    case block with assms show ?thesis
      by (auto simp: StoreLine_def dest: storeQBLOCK_shape)
  next
    case schema with assms show ?thesis
      by (auto simp: StoreLine_def dest: storeQSCHEMA_shape)
  next
    case update
    with assms have u: "storeQUPDATE line vs q = (Return e, q')"
      by (simp add: StoreLine_def)
    from storeQUPDATE_shape [OF u] show ?thesis
      by (auto split: if_splits)
  next
    case trans with assms show ?thesis
      by (auto simp: StoreLine_def dest: storeQSCHEMA_shape)
  next
    case header with assms show ?thesis
      by (auto simp: StoreLine_def dest: storeHEADER_shape)
  next
    case prompt with assms show ?thesis by (auto simp: StoreLine_def split: if_splits)
  next
    case error with assms show ?thesis by (auto simp: StoreLine_def)
  next
    case unknown with assms show ?thesis by (auto simp: StoreLine_def)
  next
    case other with assms show ?thesis by (auto simp: StoreLine_def)
  qed
qed

lemma cursor_ok_same_shape: "same_shape q q' \<Longrightarrow> cursor_ok q \<Longrightarrow> cursor_ok q'"
  by (auto simp: same_shape_def cursor_ok_def)

lemma cursor_ok_newResultSet: "same_shape (newResultSet q) q' \<Longrightarrow> cursor_ok q \<Longrightarrow> cursor_ok q'"
  by (auto simp: same_shape_def cursor_ok_def newResultSet_shape)

lemma pass_inv_start: "cursor_ok q \<Longrightarrow> pass_inv q locals0 q"
  by (simp add: pass_inv_def locals0_def)

lemma pass_inv_Continue:
  assumes "pass_inv q0 vs q" and "StoreLine conv line vs q = (Continue vs', q')"
  shows "pass_inv q0 vs' q'"
  using StoreLine_Continue [OF assms(2)]
proof
  assume a: "same_shape q q' \<and> addedResultSets vs' = addedResultSets vs"
  with assms(1) cursor_ok_same_shape [of q q'] show ?thesis
    by (auto simp: pass_inv_def same_shape_def)
next
  assume a: "same_shape (newResultSet q) q' \<and> addedResultSets vs'"
  with assms(1) cursor_ok_newResultSet [of q q'] show ?thesis
    by (auto simp: pass_inv_def same_shape_def newResultSet_shape)
qed

lemma pass_inv_Return:
  assumes "pass_inv q0 vs q" and "StoreLine conv line vs q = (Return e, q')"
  shows "cursor_ok q'"
proof -
  from StoreLine_Return [OF assms(2)]
  consider "same_shape q q'" | "same_shape (newResultSet q) q'"
    | "addedResultSets vs \<and> q' = q\<lparr>currentResultSet := 0\<rparr>" by blast
  then show ?thesis
  proof cases
    case 1 with assms(1) show ?thesis by (auto simp: pass_inv_def dest: cursor_ok_same_shape)
  next
    case 2 with assms(1) show ?thesis by (auto simp: pass_inv_def dest: cursor_ok_newResultSet)
  next
    case 3 with assms(1) show ?thesis by (auto simp: pass_inv_def cursor_ok_def)
  qed
qed

lemma StoreLines_cursor_ok:
  "pass_inv q0 vs q \<Longrightarrow> cursor_ok (snd (StoreLines conv r lines vs q))"
proof (induction lines arbitrary: vs q)
  case Nil
  then show ?case by (simp add: pass_inv_def)
next
  case (Cons line lines)
  obtain st q' where s: "StoreLine conv line vs q = (st, q')" by (cases "StoreLine conv line vs q")
  show ?case
  proof (cases st)
    case (Continue vs')
    with s Cons.prems have "pass_inv q0 vs' q'" by (auto intro: pass_inv_Continue)
    from Cons.IH [OF this] s Continue show ?thesis by simp
  next
    case (Return e)
    with s Cons.prems have "cursor_ok q'" by (auto intro: pass_inv_Return)
    with s Return show ?thesis by simp
  qed
qed

lemma StoreResult_cursor_ok: "cursor_ok q \<Longrightarrow> cursor_ok (snd (StoreResult conv r q))"
  unfolding StoreResult_def by (rule StoreLines_cursor_ok [OF pass_inv_start])

lemma NewQuery_cursor_ok: "cursor_ok (NewQuery c s)"
  by (simp add: cursor_ok_def NewQuery_def)

lemma NextResultSet_cursor_ok: "cursor_ok q \<Longrightarrow> cursor_ok (snd (NextResultSet q))"
  by (auto simp: cursor_ok_def NextResultSet_def HasNextResultSet_def)

lemma reachable_cursor_ok: "reachable conv q \<Longrightarrow> cursor_ok q"
  by (induction rule: reachable.induct)
     (simp_all add: NewQuery_cursor_ok StoreResult_cursor_ok NextResultSet_cursor_ok)

lemma ContinueLines_pass_inv:
  "pass_inv q0 vs q \<Longrightarrow> ContinueLines conv pre vs q = Some (vs', q') \<Longrightarrow> pass_inv q0 vs' q'"
proof (induction pre arbitrary: vs q)
  case Nil
  then show ?case by simp
next
  case (Cons line pre)
  from Cons.prems(2) obtain vs1 q1 where
    s: "StoreLine conv line vs q = (Continue vs1, q1)" and
    c: "ContinueLines conv pre vs1 q1 = Some (vs', q')"
    by (auto split: prod.splits step.splits)
  from pass_inv_Continue [OF Cons.prems(1) s] c show ?case by (rule Cons.IH)
qed

lemma StoreLines_append:
  "ContinueLines conv pre vs q = Some (vs', q') \<Longrightarrow>
     StoreLines conv r (pre @ rest) vs q = StoreLines conv r rest vs' q'"
  by (induction pre arbitrary: vs q) (auto split: prod.splits step.splits)

lemma parseTuple_mismatch:
  assumes "2 \<le> length line"
    and "length (Split (take (length line - 2) (drop 1 line)) [CHR '','', CHR 0x09]) \<noteq> length (Schema rs)"
  shows "parseTuple conv (Some rs) line = Inl (Err ''mapi: length of row doesn't match header'')"
  using assms by (simp add: parseTuple_def Let_def)

section \<open>The cursor over the result sets\<close>

text \<open>
  C10. For every query built by \<open>NewQuery\<close> and changed only by \<open>StoreResult\<close> and
  \<open>NextResultSet\<close>, the cursor satisfies \<open>-1 \<le> currentResultSet < len(resultSets)\<close>
  before and after every operation (the states after \<open>StoreResult\<close> and
  \<open>NextResultSet\<close> are again such queries), so \<open>Result()\<close> never indexes out of range,
  and it is \<open>nil\<close> exactly when the cursor is -1.
\<close>

theorem query_cursor_in_bounds:
  assumes "reachable conv q"
  shows "- 1 \<le> currentResultSet q \<and> currentResultSet q < int (length (resultSets q))
         \<and> (\<exists>p. Result q = Inr p \<and> (p = None \<longleftrightarrow> currentResultSet q = - 1))
         \<and> reachable conv (snd (StoreResult conv r q)) \<and> reachable conv (snd (NextResultSet q))"
  using reachable_cursor_ok [OF assms] assms
  by (auto simp: cursor_ok_def Result_def intro: reachable.intros)

theorem query_cursor_in_bounds_witness:
  "reachable textValue (snd (StoreResult textValue response_two_tables (NewQuery None ''select 1'')))
   \<and> - 1 \<le> currentResultSet (snd (StoreResult textValue response_two_tables (NewQuery None ''select 1'')))
   \<and> currentResultSet (snd (StoreResult textValue response_two_tables (NewQuery None ''select 1'')))
       < int (length (resultSets (snd (StoreResult textValue response_two_tables (NewQuery None ''select 1'')))))"
proof -
  have h: "reachable textValue (snd (StoreResult textValue response_two_tables (NewQuery None ''select 1'')))"
    by (intro reachable.intros)
  from h query_cursor_in_bounds [OF h, of response_prepare] show ?thesis by blast
qed

text \<open>
  C7. On every query that exists at run time, \<open>HasNextResultSet()\<close> is true if and only if
  a result set exists at index cursor + 1, and \<open>NextResultSet()\<close> either moves the cursor
  forward by exactly one (when that result set exists) or returns \<open>io.EOF\<close> and leaves the
  query as it is.
\<close>

theorem next_result_set_contract:
  assumes "reachable conv q"
  shows "(HasNextResultSet q \<longleftrightarrow>
            0 \<le> currentResultSet q + 1 \<and> currentResultSet q + 1 < int (length (resultSets q)))
         \<and> NextResultSet q =
            (if 0 \<le> currentResultSet q + 1 \<and> currentResultSet q + 1 < int (length (resultSets q))
             then (None, q\<lparr>currentResultSet := currentResultSet q + 1\<rparr>)
             else (Some EOF, q))"
  using reachable_cursor_ok [OF assms]
  by (auto simp: cursor_ok_def NextResultSet_def HasNextResultSet_def)

theorem next_result_set_contract_witness:
  "reachable textValue (snd (StoreResult textValue response_two_tables (NewQuery None ''select 1'')))
   \<and> HasNextResultSet (snd (StoreResult textValue response_two_tables (NewQuery None ''select 1'')))
   \<and> fst (NextResultSet (snd (StoreResult textValue response_two_tables (NewQuery None ''select 1'')))) = None
   \<and> currentResultSet (snd (NextResultSet (snd (StoreResult textValue response_two_tables (NewQuery None ''select 1''))))) = 1
   \<and> \<not> HasNextResultSet (NewQuery None ''select 1'' :: string query)
   \<and> NextResultSet (NewQuery None ''select 1'' :: string query) = (Some EOF, NewQuery None ''select 1'')"
proof -
  let ?q = "snd (StoreResult textValue response_two_tables (NewQuery None ''select 1''))"
  have h: "reachable textValue ?q"
    by (intro reachable.intros)
  have e: "currentResultSet ?q = 0 \<and> length (resultSets ?q) = 2"
    by code_simp
  have h0: "reachable textValue (NewQuery None ''select 1'')"
    by (rule reachable.new)
  have e0: "currentResultSet (NewQuery None ''select 1'' :: string query) = - 1
            \<and> length (resultSets (NewQuery None ''select 1'' :: string query)) = 0"
    by (simp add: NewQuery_def)
  from next_result_set_contract [OF h] e next_result_set_contract [OF h0] e0 h
  show ?thesis by simp
qed

text \<open>
  C8 (as the code has it). The cursor of a query created by \<open>NewQuery\<close> is -1 and
  \<open>Result()\<close> is \<open>nil\<close>; on every query that exists at run time the cursor is -1 exactly
  as long as no result set has been created. A \<open>StoreResult\<close> pass that reaches a prompt
  line returns \<open>nil\<close> and sets the cursor to 0 when the pass has produced at least one
  result set; when it has produced none, the cursor stays where it was.
\<close>

theorem cursor_after_pass:
  assumes "reachable conv q"
  shows "currentResultSet (NewQuery c s :: 'v query) = - 1
     \<and> Result (NewQuery c s :: 'v query) = Inr None
     \<and> (currentResultSet q = - 1 \<longleftrightarrow> resultSets q = [])
     \<and> (Split r [CHR 0x0A] = pre @ [] # post \<and> ContinueLines conv pre locals0 q = Some (vs, q') \<longrightarrow>
          StoreResult conv r q =
            (None, if length (resultSets q) < length (resultSets q')
                   then q'\<lparr>currentResultSet := 0\<rparr> else q')
          \<and> (\<not> length (resultSets q) < length (resultSets q') \<longrightarrow>
                currentResultSet q' = currentResultSet q))"
proof -
  have ok: "cursor_ok q" by (rule reachable_cursor_ok [OF assms])
  have a: "currentResultSet (NewQuery c s :: 'v query) = - 1 \<and> Result (NewQuery c s :: 'v query) = Inr None"
    by (simp add: NewQuery_def Result_def)
  have b: "currentResultSet q = - 1 \<longleftrightarrow> resultSets q = []"
    using ok by (auto simp: cursor_ok_def)
  have c: "StoreResult conv r q =
            (None, if length (resultSets q) < length (resultSets q')
                   then q'\<lparr>currentResultSet := 0\<rparr> else q')
          \<and> (\<not> length (resultSets q) < length (resultSets q') \<longrightarrow>
                currentResultSet q' = currentResultSet q)"
    if h: "Split r [CHR 0x0A] = pre @ [] # post" "ContinueLines conv pre locals0 q = Some (vs, q')"
  proof -
    have inv: "pass_inv q locals0 q" by (rule pass_inv_start [OF ok])
    have p: "pass_inv q vs q'" by (rule ContinueLines_pass_inv [OF inv h(2)])
    have "StoreLine conv [] vs q' =
            (Return None, if addedResultSets vs then q'\<lparr>currentResultSet := 0\<rparr> else q')"
      by (simp add: StoreLine_def getLineType_def mapi_MSG_PROMPT_def)
    then have "StoreResult conv r q =
            (None, if addedResultSets vs then q'\<lparr>currentResultSet := 0\<rparr> else q')"
      using h(1) StoreLines_append [OF h(2)] by (simp add: StoreResult_def)
    with p show ?thesis by (auto simp: pass_inv_def)
  qed
  from a b c show ?thesis by blast
qed

text \<open>
  The pass over \<open>response_two_tables\<close> runs through six lines, creates two result sets
  and reaches the prompt: the cursor, which the second header had moved to 1, is back at 0.
\<close>

theorem cursor_after_pass_witness:
  "reachable textValue (NewQuery None ''select 1'')
   \<and> fst (StoreResult textValue response_two_tables (NewQuery None ''select 1'')) = None
   \<and> currentResultSet (snd (StoreResult textValue response_two_tables (NewQuery None ''select 1''))) = 0
   \<and> length (resultSets (snd (StoreResult textValue response_two_tables (NewQuery None ''select 1'')))) = 2"
proof -
  define q where "q = (NewQuery None ''select 1'' :: string query)"
  define pre where
    "pre = [''&1 7 1 1 1'', ''% a # name'', ''[ 1 ]'', ''&1 8 1 1 1'', ''% b # name'', ''[ 2 ]'']"
  define c where "c = ContinueLines textValue pre locals0 q"
  have h: "reachable textValue q" unfolding q_def by (rule reachable.new)
  have s: "Split response_two_tables [CHR 0x0A] = pre @ [] # []"
    unfolding pre_def by code_simp
  have "c \<noteq> None" unfolding c_def pre_def q_def by code_simp
  then have c: "ContinueLines textValue pre locals0 q = Some (fst (the c), snd (the c))"
    unfolding c_def by auto
  have l: "length (resultSets q) = 0 \<and> length (resultSets (snd (the c))) = 2"
    unfolding c_def pre_def q_def by code_simp
  from cursor_after_pass [OF h, of None "''select 1''" response_two_tables pre "[]" "fst (the c)" "snd (the c)"]
    s c l
  have "StoreResult textValue response_two_tables q = (None, (snd (the c))\<lparr>currentResultSet := 0\<rparr>)"
    by (elim conjE) simp
  with l h show ?thesis unfolding q_def by simp
qed

text \<open>
  C8 as stated fails: the reply to \<open>PREPARE\<close> is a \<open>&5\<close> line, on which \<open>StoreResult\<close>
  creates a result set and returns at once. No prompt line has been reached (the response
  has this one line only), and the cursor is 0.
\<close>

theorem cursor_after_prepare_counterexample:
  "Split response_prepare [CHR 0x0A] = [response_prepare]
   \<and> getLineType response_prepare = QPREPARE
   \<and> fst (StoreResult textValue response_prepare (NewQuery None ''PREPARE select 1'')) = None
   \<and> currentResultSet (snd (StoreResult textValue response_prepare (NewQuery None ''PREPARE select 1''))) = 0"
  by code_simp

section \<open>Tuple lines\<close>

text \<open>
  C4. When the loop of \<open>StoreResult\<close> arrives at a tuple line whose interior (the line
  without its first and last character), split on comma-tab, has a number of fields
  different from the number of columns of the schema of the current result set, then
  \<open>StoreResult\<close> returns the error "length of row doesn't match header", and the query is
  exactly as it was before that line: no row, and no part of one, has been appended.
\<close>

theorem tuple_field_count_mismatch:
  assumes "Split r [CHR 0x0A] = pre @ line # post"
    and "ContinueLines conv pre locals0 q = Some (vs, q')"
    and "getLineType line = TUPLE" and "2 \<le> length line"
    and "Result q' = Inr (Some rs)"
    and "length (Split (take (length line - 2) (drop 1 line)) [CHR '','', CHR 0x09]) \<noteq> length (Schema rs)"
  shows "StoreResult conv r q = (Some (Err ''mapi: length of row doesn't match header''), q')"
proof -
  have "StoreLine conv line vs q' = (Return (Some (Err ''mapi: length of row doesn't match header'')), q')"
    using assms(3,5) parseTuple_mismatch [OF assms(4,6), of conv]
    by (simp add: StoreLine_def storeTUPLE_def)
  then show ?thesis
    using assms(1) StoreLines_append [OF assms(2)]
    by (simp add: StoreResult_def)
qed

theorem tuple_field_count_mismatch_witness:
  "fst (StoreResult textValue response_short_tuple (NewQuery None ''select 1''))
     = Some (Err ''mapi: length of row doesn't match header'')
   \<and> map Rows (resultSets (snd (StoreResult textValue response_short_tuple (NewQuery None ''select 1'')))) = [[]]
   \<and> map (map ColumnName \<circ> Schema)
        (resultSets (snd (StoreResult textValue response_short_tuple (NewQuery None ''select 1'')))) = [[''a'', ''b'']]"
proof -
  define q where "q = (NewQuery None ''select 1'' :: string query)"
  define pre where "pre = [''&1 7 3 2 3'', ''% a, b # name'']"
  define line where "line = ''[ 1 ]''"
  define c where "c = ContinueLines textValue pre locals0 q"
  define rs where "rs = resultSets (snd (the c)) ! 0"
  have s: "Split response_short_tuple [CHR 0x0A] = pre @ line # [[]]"
    unfolding pre_def line_def by code_simp
  have "c \<noteq> None" unfolding c_def pre_def q_def by code_simp
  then have c: "ContinueLines textValue pre locals0 q = Some (fst (the c), snd (the c))"
    unfolding c_def by auto
  have t: "getLineType line = TUPLE" unfolding line_def by code_simp
  have n: "2 \<le> length line" unfolding line_def by simp
  have r: "Result (snd (the c)) = Inr (Some rs)"
    unfolding rs_def c_def pre_def q_def by code_simp
  have m: "length (Split (take (length line - 2) (drop 1 line)) [CHR '','', CHR 0x09])
             \<noteq> length (Schema rs)"
    unfolding rs_def c_def pre_def q_def line_def by code_simp
  have v: "map Rows (resultSets (snd (the c))) = [[]]
           \<and> map (map ColumnName \<circ> Schema) (resultSets (snd (the c))) = [[''a'', ''b'']]"
    unfolding c_def pre_def q_def by code_simp
  from tuple_field_count_mismatch [OF s c t n r m] v show ?thesis
    unfolding q_def by simp
qed

section \<open>The block framing\<close>

lemma le16_put_le16: "le16 (put_le16 w) = Inr w"
  unfolding le16_def put_le16_def
  apply simp
  apply (rule bit_word_eqI)
  apply (auto simp: bit_simps)
  done

lemma length_put_le16: "length (put_le16 w) = 2"
  by (simp add: put_le16_def)

lemma packed_header:
  "(word_of_nat (push_bit 1 n + (if l then 1 else 0)) :: 16 word)
     = push_bit 1 (word_of_nat n) OR (if l then 1 else 0)"
  by (simp add: push_bit_eq_mult or_one_eq)

lemma unat_word16: "m < 2 ^ 16 \<Longrightarrow> unat (word_of_nat m :: 16 word) = m"
  by (simp add: unat_of_nat)

lemma unat_and_1: "unat ((w :: 16 word) AND 1) = unat w mod 2"
  by (metis and_one_eq unsigned_1 unsigned_and_eq)

lemma packed_bound:
  "n \<le> mapi_MAX_PACKAGE_LENGTH \<Longrightarrow> push_bit 1 n + (if l then 1 else 0) < (2 :: nat) ^ 16"
  by (simp add: mapi_MAX_PACKAGE_LENGTH_def push_bit_eq_mult)

lemma packed_len:
  assumes "n \<le> mapi_MAX_PACKAGE_LENGTH"
  shows "unat (drop_bit 1 (word_of_nat (push_bit 1 n + (if l then 1 else 0)) :: 16 word)) = n"
  by (simp only: unat_drop_bit_eq unat_word16 [OF packed_bound [OF assms]])
     (simp add: push_bit_eq_mult drop_bit_eq_div)

lemma packed_last:
  assumes "n \<le> mapi_MAX_PACKAGE_LENGTH"
  shows "unat ((word_of_nat (push_bit 1 n + (if l then 1 else 0)) :: 16 word) AND 1) = (if l then 1 else 0)"
  by (simp only: unat_and_1 unat_word16 [OF packed_bound [OF assms]])
     (simp add: push_bit_eq_mult)

lemma header_packed:
  "header n l = put_le16 (word_of_nat (push_bit 1 n + (if l then 1 else 0)))"
  by (simp only: header_def packed_header)

lemma length_header: "length (header n l) = 2"
  by (simp add: header_def put_le16_def)

lemma seg_Nil [simp]: "seg [] = []"
  by (simp add: seg_def)

lemma getBytes_seg:
  assumes "conn c = Some k" and "rx k = seg s" and "n \<le> length s"
  shows "getBytes n c = (Inr (take n s), c\<lparr>conn := Some (k\<lparr>rx := seg (drop n s)\<rparr>)\<rparr>)"
proof (cases "n = 0")
  case True
  have "k\<lparr>rx := seg s\<rparr> = k" using assms(2) by simp
  moreover have "c\<lparr>conn := Some k\<rparr> = c" using assms(1) by simp
  ultimately show ?thesis
    using True assms(1) by (simp add: getBytes_def getBytes_loop.simps [of 0 0])
next
  case False
  with assms(3) have ne: "s \<noteq> []" by auto
  with assms(2) have rxk: "rx k = [s]" by (simp add: seg_def)
  have rd: "Read n (Some k) = (Inr (take n s), Some (k\<lparr>rx := seg (drop n s)\<rparr>))"
    using rxk by (simp add: Read_def seg_def)
  have len: "length (take n s) = n" using assms(3) by simp
  have cp: "copy_at (replicate n 0) 0 (take n s) = take n s"
    using len by (simp add: copy_at_def)
  have "getBytes_loop n 0 (replicate n 0) (Some k)
          = getBytes_loop n n (take n s) (Some (k\<lparr>rx := seg (drop n s)\<rparr>))"
    using False rd len cp by (subst getBytes_loop.simps) simp
  also have "\<dots> = (Inr (take n s), Some (k\<lparr>rx := seg (drop n s)\<rparr>))"
    by (subst getBytes_loop.simps) simp
  finally show ?thesis using assms(1) by (simp add: getBytes_def)
qed

lemma chunks_short: "length b < mapi_MAX_PACKAGE_LENGTH \<Longrightarrow> chunks b = [b]"
  by (subst chunks.simps) simp

lemma chunks_long:
  "\<not> length b < mapi_MAX_PACKAGE_LENGTH \<Longrightarrow>
     chunks b = take mapi_MAX_PACKAGE_LENGTH b # chunks (drop mapi_MAX_PACKAGE_LENGTH b)"
  by (subst chunks.simps) simp

lemma chunks_not_Nil: "chunks b \<noteq> []"
  by (subst chunks.simps) simp

lemma concat_chunks: "concat (chunks b) = b"
proof (induction b rule: chunks.induct)
  case (1 b)
  show ?case
  proof (cases "length b < mapi_MAX_PACKAGE_LENGTH")
    case True
    then show ?thesis by (simp add: chunks_short)
  next
    case False
    with 1 show ?thesis by (simp add: chunks_long)
  qed
qed

lemma chunks_lengths:
  "i < length (chunks b) \<Longrightarrow>
     length (chunks b ! i) \<le> mapi_MAX_PACKAGE_LENGTH
     \<and> (length (chunks b ! i) < mapi_MAX_PACKAGE_LENGTH \<longleftrightarrow> i = length (chunks b) - 1)"
proof (induction b arbitrary: i rule: chunks.induct)
  case (1 b)
  show ?case
  proof (cases "length b < mapi_MAX_PACKAGE_LENGTH")
    case True
    with "1.prems" show ?thesis by (simp add: chunks_short)
  next
    case False
    note long = chunks_long [OF False]
    show ?thesis
    proof (cases i)
      case 0
      with False show ?thesis using chunks_not_Nil [of "drop mapi_MAX_PACKAGE_LENGTH b"]
        by (simp add: long)
    next
      case (Suc j)
      with "1.prems" have "j < length (chunks (drop mapi_MAX_PACKAGE_LENGTH b))"
        by (simp add: long)
      from "1.IH" [OF False this] Suc show ?thesis
        using chunks_not_Nil [of "drop mapi_MAX_PACKAGE_LENGTH b"]
        by (cases "chunks (drop mapi_MAX_PACKAGE_LENGTH b)") (auto simp: long)
    qed
  qed
qed

lemma chunks_multiple:
  "0 < n \<Longrightarrow> length b = n * mapi_MAX_PACKAGE_LENGTH \<Longrightarrow> last (chunks b) = []"
proof (induction n arbitrary: b)
  case 0
  then show ?case by simp
next
  case (Suc n)
  then have long: "\<not> length b < mapi_MAX_PACKAGE_LENGTH" by simp
  show ?case
  proof (cases "n = 0")
    case True
    with Suc.prems have "length (drop mapi_MAX_PACKAGE_LENGTH b) = 0" by simp
    then have "chunks (drop mapi_MAX_PACKAGE_LENGTH b) = [[]]"
      by (simp add: chunks_short mapi_MAX_PACKAGE_LENGTH_def)
    then show ?thesis by (simp add: chunks_long [OF long])
  next
    case False
    with Suc.prems have "length (drop mapi_MAX_PACKAGE_LENGTH b) = n * mapi_MAX_PACKAGE_LENGTH"
      by simp
    with False Suc.IH have "last (chunks (drop mapi_MAX_PACKAGE_LENGTH b)) = []" by simp
    then show ?thesis by (simp add: chunks_long [OF long] chunks_not_Nil)
  qed
qed


lemma flag_header:
  "put_le16 (word_of_nat (push_bit 1 n + (if P then 1 else 0))) = header n P"
  by (simp only: header_def packed_header)

lemma le16_header:
  assumes "n \<le> mapi_MAX_PACKAGE_LENGTH"
  shows "\<exists>w. le16 (header n l) = Inr w \<and> unat (drop_bit 1 w) = n
             \<and> unat (w AND 1) = (if l then 1 else 0)"
proof (intro exI conjI)
  show "le16 (header n l) = Inr (word_of_nat (push_bit 1 n + (if l then 1 else 0)))"
    by (simp only: header_packed le16_put_le16)
  show "unat (drop_bit 1 (word_of_nat (push_bit 1 n + (if l then 1 else 0)) :: 16 word)) = n"
    by (rule packed_len [OF assms])
  show "unat ((word_of_nat (push_bit 1 n + (if l then 1 else 0)) :: 16 word) AND 1) = (if l then 1 else 0)"
    by (rule packed_last [OF assms])
qed

lemma Write_unbroken:
  "tx_left k = None \<Longrightarrow> Write d (Some k) = (None, Some (k\<lparr>tx := tx k @ d\<rparr>))"
  by (simp add: Write_def)

lemma putBlock_loop_frames:
  assumes "conn c = Some k" and "tx_left k = None" and "pos \<le> length b"
  shows "putBlock_loop b pos c
           = (None, c\<lparr>conn := Some (k\<lparr>tx := tx k @ frames (chunks (drop pos b))\<rparr>)\<rparr>)"
  using assms
proof (induction "length b - pos" arbitrary: pos c k rule: less_induct)
  case less
  let ?rest = "drop pos b"
  show ?case
  proof (cases "length ?rest < mapi_MAX_PACKAGE_LENGTH")
    case True
    then have e: "pos + mapi_MAX_PACKAGE_LENGTH > length b" by simp
    have d: "take (length b - pos) ?rest = ?rest" by simp
    show ?thesis
      using True e less.prems(1,2)
      by (subst putBlock_loop.simps)
         (simp only: Let_def flag_header, simp add: d Write_unbroken chunks_short)
  next
    case False
    then have e: "\<not> pos + mapi_MAX_PACKAGE_LENGTH > length b"
      by (simp add: mapi_MAX_PACKAGE_LENGTH_def)
    let ?data = "take mapi_MAX_PACKAGE_LENGTH ?rest"
    have len: "length ?data = mapi_MAX_PACKAGE_LENGTH" using False by simp
    let ?k2 = "k\<lparr>tx := tx k @ header (length ?data) False @ ?data\<rparr>"
    let ?c2 = "c\<lparr>conn := Some ?k2\<rparr>"
    have step: "putBlock_loop b pos c = putBlock_loop b (pos + mapi_MAX_PACKAGE_LENGTH) ?c2"
      using e len less.prems(1,2)
      by (subst putBlock_loop.simps)
         (simp only: Let_def flag_header, simp add: Write_unbroken)
    have m: "length b - (pos + mapi_MAX_PACKAGE_LENGTH) < length b - pos"
      using False by (simp add: mapi_MAX_PACKAGE_LENGTH_def)
    have p: "pos + mapi_MAX_PACKAGE_LENGTH \<le> length b" using e by simp
    have "putBlock_loop b (pos + mapi_MAX_PACKAGE_LENGTH) ?c2
            = (None, ?c2\<lparr>conn := Some (?k2\<lparr>tx := tx ?k2
                 @ frames (chunks (drop (pos + mapi_MAX_PACKAGE_LENGTH) b))\<rparr>)\<rparr>)"
      using less.prems(2) by (intro less.hyps [OF m _ _ p]) simp_all
    moreover have "drop (pos + mapi_MAX_PACKAGE_LENGTH) b = drop mapi_MAX_PACKAGE_LENGTH ?rest"
      by (simp add: add.commute)
    ultimately show ?thesis
      using step chunks_not_Nil [of "drop mapi_MAX_PACKAGE_LENGTH ?rest"]
      by (simp add: chunks_long [OF False])
  qed
qed

lemma getBlock_loop_frames:
  assumes "conn c = Some k" and "rx k = seg (frames (chunks b) @ rest)"
  shows "getBlock_loop acc c = (Inr (acc @ b), c\<lparr>conn := Some (k\<lparr>rx := seg rest\<rparr>)\<rparr>)"
  using assms
proof (induction b arbitrary: acc c k rule: chunks.induct)
  case (1 b)
  show ?case
  proof (cases "length b < mapi_MAX_PACKAGE_LENGTH")
    case True
    let ?s = "header (length b) True @ b @ rest"
    from True "1.prems"(2) have rxk: "rx k = seg ?s" by (simp add: chunks_short)
    let ?k1 = "k\<lparr>rx := seg (b @ rest)\<rparr>"
    let ?c1 = "c\<lparr>conn := Some ?k1\<rparr>"
    have g1: "getBytes 2 c = (Inr (header (length b) True), ?c1)"
      using getBytes_seg [OF "1.prems"(1) rxk, of 2] by (simp add: length_header)
    have g2: "getBytes (length b) ?c1 = (Inr b, c\<lparr>conn := Some (k\<lparr>rx := seg rest\<rparr>)\<rparr>)"
      using getBytes_seg [of ?c1 ?k1 "b @ rest" "length b"] by simp
    from True have n: "length b \<le> mapi_MAX_PACKAGE_LENGTH" by simp
    from le16_header [OF n, of True] obtain w where
      w: "le16 (header (length b) True) = Inr w" "unat (drop_bit 1 w) = length b" "unat (w AND 1) = 1"
      by auto
    show ?thesis
      using g1 g2 w by (subst getBlock_loop.simps) (simp add: Let_def)
  next
    case False
    let ?data = "take mapi_MAX_PACKAGE_LENGTH b"
    let ?b' = "drop mapi_MAX_PACKAGE_LENGTH b"
    have len: "length ?data = mapi_MAX_PACKAGE_LENGTH" using False by simp
    let ?tail = "frames (chunks ?b') @ rest"
    let ?s = "header mapi_MAX_PACKAGE_LENGTH False @ ?data @ ?tail"
    from False "1.prems"(2) have rxk: "rx k = seg ?s"
      using chunks_not_Nil [of ?b'] by (simp add: chunks_long len)
    let ?k1 = "k\<lparr>rx := seg (?data @ ?tail)\<rparr>"
    let ?c1 = "c\<lparr>conn := Some ?k1\<rparr>"
    let ?k2 = "k\<lparr>rx := seg ?tail\<rparr>"
    let ?c2 = "c\<lparr>conn := Some ?k2\<rparr>"
    have g1: "getBytes 2 c = (Inr (header mapi_MAX_PACKAGE_LENGTH False), ?c1)"
      using getBytes_seg [OF "1.prems"(1) rxk, of 2] by (simp add: length_header)
    have g2: "getBytes mapi_MAX_PACKAGE_LENGTH ?c1 = (Inr ?data, ?c2)"
      using getBytes_seg [of ?c1 ?k1 "?data @ ?tail" mapi_MAX_PACKAGE_LENGTH] len by simp
    from le16_header [OF order_refl, of False] obtain w where
      w: "le16 (header mapi_MAX_PACKAGE_LENGTH False) = Inr w"
         "unat (drop_bit 1 w) = mapi_MAX_PACKAGE_LENGTH" "unat (w AND 1) = 0"
      by auto
    have step: "getBlock_loop acc c = getBlock_loop (acc @ ?data) ?c2"
      using g1 g2 w by (subst getBlock_loop.simps) (simp add: Let_def)
    have "getBlock_loop (acc @ ?data) ?c2
            = (Inr ((acc @ ?data) @ ?b'), ?c2\<lparr>conn := Some (?k2\<lparr>rx := seg rest\<rparr>)\<rparr>)"
      by (rule "1.IH" [OF False]) simp_all
    with step show ?thesis by simp
  qed
qed

lemma frames_snoc: "\<exists>pre. frames (chs @ [ch]) = pre @ header (length ch) True @ ch"
proof (induction chs)
  case Nil
  show ?case by simp
next
  case (Cons a chs)
  then obtain pre where "frames (chs @ [ch]) = pre @ header (length ch) True @ ch" by blast
  then have "frames ((a # chs) @ [ch]) = (header (length a) False @ a @ pre) @ header (length ch) True @ ch"
    by simp
  then show ?case by blast
qed

lemma frames_multiple:
  assumes "0 < n" and "length b = n * mapi_MAX_PACKAGE_LENGTH"
  shows "\<exists>pre. frames (chunks b) = pre @ [1, 0]"
proof -
  have l: "last (chunks b) = []" by (rule chunks_multiple [OF assms])
  have "chunks b = butlast (chunks b) @ [last (chunks b)]"
    using chunks_not_Nil [of b] by simp
  with l have "chunks b = butlast (chunks b) @ [[]]" by simp
  with frames_snoc [of "butlast (chunks b)" "[]"]
  obtain pre where "frames (chunks b) = pre @ header 0 True" by auto
  moreover have "header 0 True = [1, 0]" by (simp add: header_def put_le16_def)
  ultimately show ?thesis by auto
qed

text \<open>
  C6. On a link that holds, \<open>putBlock\<close> returns \<open>nil\<close> and has written the frames of
  the chunks of the payload: the chunks make up the payload, none is longer than 8190
  bytes, each follows its header \<open>(length << 1) | last_flag\<close> in two little-endian bytes,
  and the flag is 1 on the final chunk only. A chunk is shorter than 8190 bytes exactly
  when it is the final one, so a chunk of 8190 bytes is never marked last, and a payload
  whose length is a positive multiple of 8190 ends with an empty final chunk, whose
  header is the two bytes 1, 0.
\<close>

theorem putBlock_frames:
  assumes "conn c = Some k" and "tx_left k = None"
  shows "putBlock b c = (None, c\<lparr>conn := Some (k\<lparr>tx := tx k @ frames (chunks b)\<rparr>)\<rparr>)
     \<and> concat (chunks b) = b
     \<and> mapi_MAX_PACKAGE_LENGTH = 8190
     \<and> (\<forall>i < length (chunks b).
            length (chunks b ! i) \<le> 8190
            \<and> (length (chunks b ! i) < 8190 \<longleftrightarrow> i = length (chunks b) - 1))
     \<and> (\<forall>n > 0. length b = n * 8190 \<longrightarrow>
            last (chunks b) = [] \<and> (\<exists>pre. frames (chunks b) = pre @ [1, 0]))"
proof -
  have m: "mapi_MAX_PACKAGE_LENGTH = 8190" by (simp add: mapi_MAX_PACKAGE_LENGTH_def)
  have "putBlock b c = (None, c\<lparr>conn := Some (k\<lparr>tx := tx k @ frames (chunks b)\<rparr>)\<rparr>)"
    using putBlock_loop_frames [OF assms, of 0 b] by (simp add: putBlock_def)
  moreover have "\<forall>i < length (chunks b).
            length (chunks b ! i) \<le> 8190
            \<and> (length (chunks b ! i) < 8190 \<longleftrightarrow> i = length (chunks b) - 1)"
    using chunks_lengths [of _ b] by (simp add: m)
  moreover have "\<forall>n > 0. length b = n * 8190 \<longrightarrow>
            last (chunks b) = [] \<and> (\<exists>pre. frames (chunks b) = pre @ [1, 0])"
    using chunks_multiple [of _ b] frames_multiple [of _ b] by (simp add: m)
  ultimately show ?thesis by (simp add: concat_chunks m)
qed

theorem putBlock_frames_witness:
  "putBlock [1, 2, 3] sample_conn
     = (None, sample_conn\<lparr>conn := Some \<lparr>rx = [], tx = [7, 0, 1, 2, 3], tx_left = None\<rparr>\<rparr>)
   \<and> chunks [1, 2, 3] = [[1, 2, 3]]
   \<and> last (chunks (replicate 8190 0)) = []"
proof -
  define k where "k = \<lparr>rx = [], tx = ([] :: byte list), tx_left = None\<rparr>"
  define big where "big = replicate 8190 (0 :: byte)"
  have c: "conn sample_conn = Some k" by (simp add: sample_conn_def k_def)
  have t: "tx_left k = None" by (simp add: k_def)
  have ch: "chunks [1, 2, 3] = [[1, 2, 3]]" by code_simp
  have f: "frames [[1, 2, 3]] = [7, 0, 1, 2, 3]" by code_simp
  have l: "length big = 1 * 8190" by (simp add: big_def)
  from putBlock_frames [OF c t, of big]
  have "\<forall>n > 0. length big = n * 8190 \<longrightarrow> last (chunks big) = []" by blast
  with l have z: "last (chunks big) = []" by (metis zero_less_one)
  from putBlock_frames [OF c t, of "[1, 2, 3]"]
  have "putBlock [1, 2, 3] sample_conn
          = (None, sample_conn\<lparr>conn := Some (k\<lparr>tx := tx k @ frames (chunks [1, 2, 3])\<rparr>)\<rparr>)"
    by (rule conjunct1)
  with ch f have p: "putBlock [1, 2, 3] sample_conn
          = (None, sample_conn\<lparr>conn := Some \<lparr>rx = [], tx = [7, 0, 1, 2, 3], tx_left = None\<rparr>\<rparr>)"
    by (simp add: k_def)
  from p ch z show ?thesis unfolding big_def by (intro conjI)
qed



text \<open>
  The stream must arrive whole for this. \<open>getBytes\<close> reads into its whole buffer in
  every turn, so a \<open>Read\<close> that follows a short one can take bytes of the next field and
  drop them: with the frame of the payload 1, 2, 3 cut after its first byte, \<open>getBlock\<close>
  fails although every byte of the frame has been delivered.
\<close>

lemma getBlock_fragmented_example:
  "fst (getBlock (sample_conn\<lparr>conn := Some \<lparr>rx = [[7, 0, 1, 2, 3]], tx = [], tx_left = None\<rparr>\<rparr>))
     = Inr [1, 2, 3]
   \<and> fst (getBlock (sample_conn\<lparr>conn := Some \<lparr>rx = [[7], [0, 1, 2, 3]], tx = [], tx_left = None\<rparr>\<rparr>))
     = Inl EOF"
  by code_simp

section \<open>The login handshake\<close>

text \<open>
  The test \<open>strings.Contains("," + hashes + ",", ",SHA1,")\<close> of the source says that SHA1
  is one of the comma-separated items of \<open>hashes\<close>.
\<close>

lemma HasPrefix_Cons: "HasPrefix (a # s) (b # p) \<longleftrightarrow> a = b \<and> HasPrefix s p"
  by (auto simp: HasPrefix_def)

lemma HasPrefix_Nil [simp]: "HasPrefix s []"
  by (simp add: HasPrefix_def)

lemma HasPrefix_field:
  "d \<notin> set u \<Longrightarrow> d \<notin> set X \<Longrightarrow> HasPrefix (u @ d # w) (X @ [d]) \<longleftrightarrow> X = u"
proof (induction u arbitrary: X)
  case Nil
  then show ?case by (cases X) (auto simp: HasPrefix_Cons)
next
  case (Cons a u)
  then show ?case by (cases X) (auto simp: HasPrefix_Cons)
qed

lemma Contains_skip:
  "d \<notin> set u \<Longrightarrow> Contains (u @ s) (d # p) \<longleftrightarrow> Contains s (d # p)"
  by (induction u) (auto simp: HasPrefix_Cons)

lemma Contains_field:
  assumes "d \<notin> set u" and "d \<notin> set X"
  shows "Contains (d # u @ d # w) (d # X @ [d]) \<longleftrightarrow> X = u \<or> Contains (d # w) (d # X @ [d])"
  using HasPrefix_field [OF assms, of w] Contains_skip [OF assms(1), of "d # w" "X @ [d]"]
  by (simp add: HasPrefix_Cons)

lemma Contains_end: "\<not> Contains [d] (d # X @ [d])"
  by (simp add: HasPrefix_def)

lemma Split_from_member:
  "d \<notin> set cur \<Longrightarrow> d \<notin> set X \<Longrightarrow>
     X \<in> set (Split_from [d] 0 cur s) \<longleftrightarrow> Contains (d # rev cur @ s @ [d]) (d # X @ [d])"
proof (induction s arbitrary: cur)
  case Nil
  with Contains_field [of d "rev cur" X "[]"] Contains_end [of d X] show ?case by auto
next
  case (Cons c cs)
  show ?case
  proof (cases "c = d")
    case True
    have "X \<in> set (Split_from [d] 0 [] cs) \<longleftrightarrow> Contains (d # cs @ [d]) (d # X @ [d])"
      using Cons.IH [of "[]"] Cons.prems(2) by simp
    with True Contains_field [of d "rev cur" X "cs @ [d]"] Cons.prems show ?thesis
      by (auto simp: HasPrefix_Cons)
  next
    case False
    with Cons.IH [of "c # cur"] Cons.prems show ?thesis
      by (simp add: HasPrefix_Cons)
  qed
qed

lemma Contains_list_member:
  "d \<notin> set X \<Longrightarrow> Contains ([d] @ hs @ [d]) ([d] @ X @ [d]) \<longleftrightarrow> X \<in> set (Split hs [d])"
  using Split_from_member [of d "[]" X hs] by (simp add: Split_def)

lemma index_Inr: "i < length xs \<Longrightarrow> index xs i = Inr (xs ! i)"
  by (simp add: index_def)

lemma string_of_bytes_of [simp]: "string_of (bytes_of s) = s"
proof -
  have "char_of (unat (word_of_nat (of_char c) :: byte)) = c" for c :: char
    by (simp add: unat_of_nat)
  then show ?thesis
    by (simp add: string_of_def bytes_of_def comp_def)
qed

lemma challengeResponse_v9_SHA512:
  assumes "6 \<le> length (Split (string_of challenge) '':'')"
    and "Split (string_of challenge) '':'' ! 2 = ''9''"
    and "Split (string_of challenge) '':'' ! 5 = ''SHA512''"
  shows "challengeResponse h challenge c =
     (if Contains ('','' @ Split (string_of challenge) '':'' ! 3 @ '','') '',SHA1,'' then
        Inr (''BIG:'' @ Username c @ '':'' @ (''{SHA1}''
               @ hex (SHA1 h (hex (SHA512 h (Password c)) @ Split (string_of challenge) '':'' ! 0)))
               @ '':'' @ Language c @ '':'' @ Database c @ '':'')
      else if Contains ('','' @ Split (string_of challenge) '':'' ! 3 @ '','') '',MD5,'' then
        Inr (''BIG:'' @ Username c @ '':'' @ (''{MD5}''
               @ hex (MD5 h (hex (SHA512 h (Password c)) @ Split (string_of challenge) '':'' ! 0)))
               @ '':'' @ Language c @ '':'' @ Database c @ '':'')
      else Inl (Err (''mapi: unsupported hash algorithm required for login ''
                      @ Split (string_of challenge) '':'' ! 3)))"
proof -
  define t where "t = Split (string_of challenge) '':''"
  have i: "index t 0 = Inr (t ! 0)" "index t 2 = Inr ''9''" "index t 3 = Inr (t ! 3)"
    "index t 5 = Inr ''SHA512''"
    using assms unfolding t_def [symmetric] index_def by auto
  show ?thesis
    unfolding challengeResponse_def t_def [symmetric] Let_def i bind_res_def by simp
qed

text \<open>
  C5. For a challenge with protocol version "9" and password algorithm SHA512:
  when the comma-separated list of hash algorithms that the server offers contains SHA1,
  \<open>challengeResponse\<close> returns exactly
  \<open>"BIG:" + username + ":" + "{SHA1}" + hex(sha1(hex(sha512(password)) + salt)) + ":" + language + ":" + database + ":"\<close>,
  whether MD5 is offered or not; MD5 is used, in the same way, only when SHA1 is not in
  the list and MD5 is.
\<close>

theorem challengeResponse_hash_choice:
  assumes "6 \<le> length (Split (string_of challenge) '':'')"
    and "Split (string_of challenge) '':'' ! 2 = ''9''"
    and "Split (string_of challenge) '':'' ! 5 = ''SHA512''"
  shows "(''SHA1'' \<in> set (Split (Split (string_of challenge) '':'' ! 3) '','') \<longrightarrow>
            challengeResponse h challenge c =
              Inr (''BIG:'' @ Username c @ '':'' @ ''{SHA1}''
                     @ hex (SHA1 h (hex (SHA512 h (Password c)) @ Split (string_of challenge) '':'' ! 0))
                     @ '':'' @ Language c @ '':'' @ Database c @ '':''))
       \<and> (''SHA1'' \<notin> set (Split (Split (string_of challenge) '':'' ! 3) '','')
            \<and> ''MD5'' \<in> set (Split (Split (string_of challenge) '':'' ! 3) '','') \<longrightarrow>
            challengeResponse h challenge c =
              Inr (''BIG:'' @ Username c @ '':'' @ ''{MD5}''
                     @ hex (MD5 h (hex (SHA512 h (Password c)) @ Split (string_of challenge) '':'' ! 0))
                     @ '':'' @ Language c @ '':'' @ Database c @ '':''))"
proof -
  define t where "t = Split (string_of challenge) '':''"
  have s1: "Contains ('','' @ t ! 3 @ '','') '',SHA1,'' \<longleftrightarrow> ''SHA1'' \<in> set (Split (t ! 3) '','')"
    using Contains_list_member [of "CHR '',''" "''SHA1''" "t ! 3"] by simp
  have s2: "Contains ('','' @ t ! 3 @ '','') '',MD5,'' \<longleftrightarrow> ''MD5'' \<in> set (Split (t ! 3) '','')"
    using Contains_list_member [of "CHR '',''" "''MD5''" "t ! 3"] by simp
  show ?thesis
    unfolding challengeResponse_v9_SHA512 [OF assms] t_def [symmetric] s1 s2 by simp
qed

theorem challengeResponse_hash_choice_witness:
  "challengeResponse example_crypto (bytes_of challenge_sha1_md5) sample_conn =
     Inr (''BIG:monetdb:{SHA1}'' @ hex (SHA1 example_crypto (hex (SHA512 example_crypto ''monetdb'') @ ''s4lt''))
          @ '':sql:demo:'')
   \<and> challengeResponse example_crypto (bytes_of challenge_md5) sample_conn =
     Inr (''BIG:monetdb:{MD5}'' @ hex (MD5 example_crypto (hex (SHA512 example_crypto ''monetdb'') @ ''s4lt''))
          @ '':sql:demo:'')"
proof -
  define t1 where "t1 = Split challenge_sha1_md5 '':''"
  define t2 where "t2 = Split challenge_md5 '':''"
  have a1: "6 \<le> length t1" and b1: "t1 ! 2 = ''9''" and c1: "t1 ! 5 = ''SHA512''"
    and d1: "''SHA1'' \<in> set (Split (t1 ! 3) '','')" and e1: "t1 ! 0 = ''s4lt''"
    unfolding t1_def by code_simp+
  have a2: "6 \<le> length t2" and b2: "t2 ! 2 = ''9''" and c2: "t2 ! 5 = ''SHA512''"
    and d2: "''SHA1'' \<notin> set (Split (t2 ! 3) '','') \<and> ''MD5'' \<in> set (Split (t2 ! 3) '','')"
    and e2: "t2 ! 0 = ''s4lt''"
    unfolding t2_def by code_simp+
  have u: "Username sample_conn = ''monetdb''" "Password sample_conn = ''monetdb''"
    "Language sample_conn = ''sql''" "Database sample_conn = ''demo''"
    by (simp_all add: sample_conn_def)
  have s1: "Split (string_of (bytes_of challenge_sha1_md5)) '':'' = t1"
    and s2: "Split (string_of (bytes_of challenge_md5)) '':'' = t2"
    by (simp_all add: t1_def t2_def)
  from challengeResponse_hash_choice [of "bytes_of challenge_sha1_md5" example_crypto sample_conn,
      unfolded s1, OF a1 b1 c1] d1 e1
  have r1: "challengeResponse example_crypto (bytes_of challenge_sha1_md5) sample_conn =
     Inr (''BIG:'' @ ''monetdb'' @ '':'' @ ''{SHA1}''
          @ hex (SHA1 example_crypto (hex (SHA512 example_crypto ''monetdb'') @ ''s4lt''))
          @ '':'' @ ''sql'' @ '':'' @ ''demo'' @ '':'')"
    unfolding u by (elim conjE) simp
  from challengeResponse_hash_choice [of "bytes_of challenge_md5" example_crypto sample_conn,
      unfolded s2, OF a2 b2 c2] d2 e2
  have r2: "challengeResponse example_crypto (bytes_of challenge_md5) sample_conn =
     Inr (''BIG:'' @ ''monetdb'' @ '':'' @ ''{MD5}''
          @ hex (MD5 example_crypto (hex (SHA512 example_crypto ''monetdb'') @ ''s4lt''))
          @ '':'' @ ''sql'' @ '':'' @ ''demo'' @ '':'')"
    unfolding u by (elim conjE) simp
  from r1 r2 show ?thesis by simp
qed

text \<open>Whole messages on a stream that arrives whole, and the end of the stream.\<close>

lemma getBlock_message:
  assumes "conn c = Some k" and "rx k = seg (frames (chunks b) @ rest)"
  shows "getBlock c = (Inr b, c\<lparr>conn := Some (k\<lparr>rx := seg rest\<rparr>)\<rparr>)"
  using getBlock_loop_frames [OF assms, of "[]"] by (simp add: getBlock_def)

lemma getBlock_end_of_stream:
  assumes "conn c = Some k" and "rx k = []"
  shows "getBlock c = (Inl EOF, c)"
proof -
  have "getBytes_loop 2 0 (replicate 2 0) (Some k) = (Inl EOF, Some k)"
    using assms(2) by (subst getBytes_loop.simps) (simp add: Read_def)
  moreover have "c\<lparr>conn := Some k\<rparr> = c" using assms(1) by simp
  ultimately have "getBytes 2 c = (Inl EOF, c)"
    using assms(1) by (simp add: getBytes_def)
  then show ?thesis
    unfolding getBlock_def by (subst getBlock_loop.simps) simp
qed

lemma putBlock_message:
  assumes "conn c = Some k" and "tx_left k = None"
  shows "putBlock b c = (None, c\<lparr>conn := Some (k\<lparr>tx := tx k @ frames (chunks b)\<rparr>)\<rparr>)"
  using putBlock_loop_frames [OF assms, of 0 b] by (simp add: putBlock_def)

lemma challengeResponse_sample:
  "\<exists>response. challengeResponse h (bytes_of challenge_sha1_md5) c = Inr response"
proof -
  define t where "t = Split challenge_sha1_md5 '':''"
  have a: "6 \<le> length t" and b: "t ! 2 = ''9''" and c: "t ! 5 = ''SHA512''"
    and d: "Contains ('','' @ t ! 3 @ '','') '',SHA1,''"
    unfolding t_def by code_simp+
  have s: "Split (string_of (bytes_of challenge_sha1_md5)) '':'' = t"
    by (simp add: t_def)
  show ?thesis
    using challengeResponse_v9_SHA512 [of "bytes_of challenge_sha1_md5" h c, unfolded s, OF a b c] d
    by simp
qed

lemma prompt_action_merovingian:
  "prompt_action (TrimSpace (string_of (bytes_of redirect_merovingian))) iteration c =
     (if iteration \<le> 10 then Restart
      else Fail (Err ''mapi: maximal number of redirects reached (10)'') c)"
proof -
  define p where "p = redirect_merovingian"
  have t: "TrimSpace p = p" unfolding p_def by code_simp
  have a: "length p \<noteq> 0" "p \<noteq> mapi_MSG_OK" "\<not> HasPrefix p mapi_MSG_INFO"
    "\<not> HasPrefix p mapi_MSG_ERROR" "HasPrefix p mapi_MSG_REDIRECT"
    unfolding p_def by code_simp+
  have r: "bind_res (index (Split p '' '') 0) (\<lambda>t0. bind_res (slice_from t0 1) (\<lambda>s. Inr (Split s '':'')))
             = Inr [''mapi'', ''merovingian'', ''//proxy?database=demo'']"
    unfolding p_def by code_simp
  show ?thesis
    unfolding string_of_bytes_of p_def [symmetric] t
    by (simp only: prompt_action_def a r Let_def) (simp add: index_def)
qed


lemma rounds_stream:
  "concat (map f (concat (replicate n [a, b]))) = concat (replicate n (f a @ f b))"
  by (induction n) simp_all

lemma tryLogin_redirect_chain:
  assumes "conn c = Some k" and "tx_left k = None"
    and "rx k = seg (concat (replicate n (frames (chunks (bytes_of challenge_sha1_md5))
                                          @ frames (chunks (bytes_of redirect_merovingian)))))"
  shows "\<exists>c'. tryLogin h iteration net c =
            (if n = 0 then Some EOF
             else if iteration \<le> 10 then None
             else Some (Err ''mapi: maximal number of redirects reached (10)''), net, c')
          \<and> (0 < n \<and> iteration \<le> 10 \<longrightarrow> State c' = mapi_STATE_READY)"
  using assms
proof (induction n arbitrary: iteration c k)
  case 0
  then have "getBlock c = (Inl EOF, c)" by (simp add: getBlock_end_of_stream)
  then show ?case by (subst tryLogin.simps) simp
next
  case (Suc n)
  define round where "round = frames (chunks (bytes_of challenge_sha1_md5))
                  @ frames (chunks (bytes_of redirect_merovingian))"
  define k1 where
    "k1 = k\<lparr>rx := seg (frames (chunks (bytes_of redirect_merovingian)) @ concat (replicate n round))\<rparr>"
  define c1 where "c1 = c\<lparr>conn := Some k1\<rparr>"
  have g1: "getBlock c = (Inr (bytes_of challenge_sha1_md5), c1)"
    unfolding c1_def k1_def using Suc.prems(1,3)
    by (intro getBlock_message) (simp_all add: round_def)
  obtain response where cr: "challengeResponse h (bytes_of challenge_sha1_md5) c1 = Inr response"
    using challengeResponse_sample by blast
  define k2 where "k2 = k1\<lparr>tx := tx k1 @ frames (chunks (bytes_of response))\<rparr>"
  define c2 where "c2 = c1\<lparr>conn := Some k2\<rparr>"
  have "putBlock (bytes_of response) c1 = (None, c2)"
    unfolding c2_def k2_def using Suc.prems(2)
    by (intro putBlock_message) (simp_all add: c1_def k1_def)
  then have p: "snd (putBlock (bytes_of response) c1) = c2" by simp
  define k3 where "k3 = k2\<lparr>rx := seg (concat (replicate n round))\<rparr>"
  define c3 where "c3 = c2\<lparr>conn := Some k3\<rparr>"
  have g2: "getBlock c2 = (Inr (bytes_of redirect_merovingian), c3)"
    unfolding c3_def k3_def
    by (intro getBlock_message) (simp_all add: c2_def k2_def k1_def)
  have step: "tryLogin h iteration net c =
     (case prompt_action (TrimSpace (string_of (bytes_of redirect_merovingian))) iteration c3 of
        Accept \<Rightarrow> (None, net, c3\<lparr>State := mapi_STATE_READY\<rparr>)
      | Fail err c' \<Rightarrow> (Some err, net, c')
      | Restart \<Rightarrow>
          (case tryLogin h (iteration + 1) net c3 of
             (Some (Panic p), net', c4) \<Rightarrow> (Some (Panic p), net', c4)
           | (ignored, net', c4) \<Rightarrow> (None, net', c4\<lparr>State := mapi_STATE_READY\<rparr>))
      | Reconnect c' \<Rightarrow>
          (case Connect h net c' of
             (Some (Panic p), net', c4) \<Rightarrow> (Some (Panic p), net', c4)
           | (ignored, net', c4) \<Rightarrow> (None, net', c4\<lparr>State := mapi_STATE_READY\<rparr>)))"
    by (subst tryLogin.simps) (simp only: g1 cr p g2 prod.case sum.case)
  show ?case
  proof (cases "iteration \<le> 10")
    case False
    then show ?thesis
      unfolding step prompt_action_merovingian by simp
  next
    case True
    have "\<exists>c'. tryLogin h (iteration + 1) net c3 =
            (if n = 0 then Some EOF
             else if iteration + 1 \<le> 10 then None
             else Some (Err ''mapi: maximal number of redirects reached (10)''), net, c')
          \<and> (0 < n \<and> iteration + 1 \<le> 10 \<longrightarrow> State c' = mapi_STATE_READY)"
      using Suc.prems(2)
      by (intro Suc.IH [of c3 k3]) (simp_all add: c3_def k3_def k2_def k1_def round_def)
    then obtain e c4 where
      inner: "tryLogin h (iteration + 1) net c3 = (e, net, c4)"
      and e: "e = Some EOF \<or> e = None \<or> e = Some (Err ''mapi: maximal number of redirects reached (10)'')"
      by (auto split: if_splits)
    from e True have "tryLogin h iteration net c = (None, net, c4\<lparr>State := mapi_STATE_READY\<rparr>)"
      unfolding step prompt_action_merovingian inner by auto
    with True show ?thesis by simp
  qed
qed

text \<open>
  C2 does not hold of the code. \<open>tryLogin\<close> drops the result of the call
  \<open>c.tryLogin(iteration + 1)\<close>, so the error "maximal number of redirects reached (10)",
  which the innermost call returns, never reaches the caller of \<open>login\<close>; and the test is
  \<open>iteration <= 10\<close> with \<open>iteration\<close> starting at 0, so the handshake is restarted up
  to eleven times. On a meta-proxy that redirects twelve logins in a row, \<open>login\<close> returns
  \<open>nil\<close> and the handle is in state Ready.
\<close>

theorem login_redirect_chain_accepted:
  "fst (login h net (on_stream (redirect_chain 12))) = None
   \<and> State (snd (snd (login h net (on_stream (redirect_chain 12))))) = mapi_STATE_READY"
proof -
  define k where "k = \<lparr>rx = redirect_chain 12, tx = ([] :: byte list), tx_left = None\<rparr>"
  have c: "conn (on_stream (redirect_chain 12)) = Some k"
    by (simp add: on_stream_def k_def)
  have t: "tx_left k = None" by (simp add: k_def)
  have r: "rx k = seg (concat (replicate 12 (frames (chunks (bytes_of challenge_sha1_md5))
                                          @ frames (chunks (bytes_of redirect_merovingian)))))"
    unfolding k_def redirect_chain_def server_says_def
    by (simp only: rounds_stream TCPConn.simps)
  from tryLogin_redirect_chain [OF c t r, of h 0 net] show ?thesis
    by (auto simp: login_def)
qed

text \<open>
  C9. When the challenge has been read and answered and reading the prompt block fails,
  \<open>tryLogin\<close> returns \<open>nil\<close>, and so does \<open>Connect\<close>; the state of the handle is what
  it was before, so a handle in state Init is not Ready after this login that reports
  success.
\<close>

theorem tryLogin_prompt_read_error:
  assumes "getBlock (c0\<lparr>conn := Some k\<rparr>) = (Inr challenge, c1)"
    and "challengeResponse h challenge c1 = Inr response"
    and "getBlock (snd (putBlock (bytes_of response) c1)) = (Inl e, c3)"
  shows "tryLogin h iteration net (c0\<lparr>conn := Some k\<rparr>) = (None, net, c3)
       \<and> Connect h (Some k # net) c0 = (None, net, c3)
       \<and> State c3 = State c0
       \<and> (State c0 = mapi_STATE_INIT \<longrightarrow> State c3 \<noteq> mapi_STATE_READY)"
proof -
  have t: "tryLogin h i net (c0\<lparr>conn := Some k\<rparr>) = (None, net, c3)" for i
    by (subst tryLogin.simps) (simp only: assms prod.case sum.case)
  have c: "Connect h (Some k # net) c0 = (None, net, c3)"
    by (subst Connect.simps) (simp add: t)
  obtain e2 c2 where p: "putBlock (bytes_of response) c1 = (e2, c2)"
    by (cases "putBlock (bytes_of response) c1")
  from getBlock_handle [OF assms(1)] obtain x1 where "c1 = c0\<lparr>conn := x1\<rparr>" by auto
  moreover from putBlock_handle [OF p] obtain x2 where "c2 = c1\<lparr>conn := x2\<rparr>" ..
  moreover from assms(3) p have "getBlock c2 = (Inl e, c3)" by simp
  from getBlock_handle [OF this] obtain x3 where "c3 = c2\<lparr>conn := x3\<rparr>" ..
  ultimately have s: "State c3 = State c0" by simp
  from t c s show ?thesis
    by (simp add: mapi_STATE_INIT_def mapi_STATE_READY_def)
qed

theorem tryLogin_prompt_read_error_witness:
  "fst (Connect example_crypto
          [Some \<lparr>rx = server_says [challenge_sha1_md5], tx = [], tx_left = None\<rparr>] sample_conn) = None
   \<and> State (snd (snd (Connect example_crypto
          [Some \<lparr>rx = server_says [challenge_sha1_md5], tx = [], tx_left = None\<rparr>] sample_conn)))
       = mapi_STATE_INIT
   \<and> conn (snd (snd (Connect example_crypto
          [Some \<lparr>rx = server_says [challenge_sha1_md5], tx = [], tx_left = None\<rparr>] sample_conn)))
       \<noteq> None"
proof -
  define k where "k = \<lparr>rx = server_says [challenge_sha1_md5], tx = ([] :: byte list), tx_left = None\<rparr>"
  define k1 where "k1 = k\<lparr>rx := seg []\<rparr>"
  define c1 where "c1 = sample_conn\<lparr>conn := Some k, conn := Some k1\<rparr>"
  have g1: "getBlock (sample_conn\<lparr>conn := Some k\<rparr>) = (Inr (bytes_of challenge_sha1_md5), c1)"
    unfolding c1_def k1_def
    by (intro getBlock_message) (simp_all add: k_def server_says_def)
  obtain response where cr: "challengeResponse example_crypto (bytes_of challenge_sha1_md5) c1 = Inr response"
    using challengeResponse_sample by blast
  define k2 where "k2 = k1\<lparr>tx := tx k1 @ frames (chunks (bytes_of response))\<rparr>"
  define c2 where "c2 = c1\<lparr>conn := Some k2\<rparr>"
  have "putBlock (bytes_of response) c1 = (None, c2)"
    unfolding c2_def k2_def
    by (intro putBlock_message) (simp_all add: c1_def k1_def k_def)
  then have p: "snd (putBlock (bytes_of response) c1) = c2" by simp
  have "getBlock c2 = (Inl EOF, c2)"
    by (rule getBlock_end_of_stream [of c2 k2]) (simp_all add: c2_def k2_def k1_def)
  with p have g2: "getBlock (snd (putBlock (bytes_of response) c1)) = (Inl EOF, c2)" by simp
  have i: "State sample_conn = mapi_STATE_INIT" by (simp add: sample_conn_def)
  from tryLogin_prompt_read_error [OF g1 cr g2, of 0 "[]"] i
  have "Connect example_crypto [Some k] sample_conn = (None, [], c2) \<and> State c2 = mapi_STATE_INIT"
    by simp
  moreover have "conn c2 \<noteq> None" by (simp add: c2_def)
  ultimately show ?thesis unfolding k_def by simp
qed


section \<open>The rows cursor\<close>







text \<open>
  The window invariant holds for a new cursor and after every call of \<open>Next\<close>, whatever
  the server answers and also when the call fails: \<open>Next\<close> moves to the following row
  only, and \<open>fetchNext\<close> moves the window to the row that is asked for.
\<close>

lemma mapiDo_fields:
  "mapiDo amount s = (res, s') \<Longrightarrow>
     rowNum s' = rowNum s \<and> offset s' = offset s \<and> rows s' = rows s \<and> active s' = active s"
  by (auto simp: mapiDo_def split: prod.splits)

lemma Rows_fetchNext_rows_inv:
  assumes "rows_inv r" and "rowNum r \<ge> offset r + int (length (rows r))"
    and "Rows_fetchNext lib r = (e, r')"
  shows "rowNum r' = rowNum r \<and> offset r' \<le> rowNum r \<and> rowNum r \<le> offset r' + int (length (rows r'))"
proof -
  from assms(1,2) have eq: "rowNum r = offset r + int (length (rows r))" "offset r \<le> rowNum r"
    by (auto simp: rows_inv_def)
  show ?thesis
    using assms(3) eq
    by (auto simp: Rows_fetchNext_def Let_def
             split: sum.splits option.splits if_splits prod.splits error.splits
             dest!: mapiDo_fields)
qed

lemma Next_rows_inv:
  assumes "rows_inv r"
  shows "rows_inv (snd (snd (Next lib dest r)))"
proof (cases "rowNum r \<ge> offset r + int (length (rows r))")
  case False
  with assms show ?thesis
    by (auto simp: Next_def rows_inv_def split: sum.splits option.splits prod.splits)
next
  case True
  obtain e r' where f: "Rows_fetchNext lib r = (e, r')" by (cases "Rows_fetchNext lib r")
  note i = Rows_fetchNext_rows_inv [OF assms True f]
  from assms True f i show ?thesis
    by (auto simp: Next_def rows_inv_def split: sum.splits option.splits prod.splits)
qed

lemma newRows_rows_inv: "rows_inv (newRows q)"
  by (simp add: rows_inv_def newRows_def)

text \<open>
  Inside the window, \<open>Next\<close> copies the row into \<open>dest\<close> (which must be long enough)
  and moves to the following row; nothing else changes.
\<close>

lemma copy_row_fits:
  "i + length vs \<le> length dest \<Longrightarrow>
     \<exists>dest'. copy_row f i vs dest = (None, dest') \<and> length dest' = length dest"
proof (induction vs arbitrary: i dest)
  case Nil
  show ?case by simp
next
  case (Cons v vs)
  from Cons.prems have "Suc i + length vs \<le> length (dest[i := f v])" by simp
  from Cons.IH [OF this] Cons.prems show ?case by simp
qed

lemma Next_in_window:
  assumes "active r" and "Result (query r) = Inr (Some rs)" and "QueryId (Metadata rs) \<noteq> - 1"
    and "rowNum r < RowCount (Metadata rs)"
    and "offset r \<le> rowNum r" and "rowNum r < offset r + int (length (rows r))"
    and "length (rows r ! nat (rowNum r - offset r)) \<le> length dest"
  shows "\<exists>dest'. Next lib dest r = (None, dest', r\<lparr>rowNum := rowNum r + 1\<rparr>)
                 \<and> length dest' = length dest"
proof -
  from copy_row_fits [of 0 "rows r ! nat (rowNum r - offset r)" dest "stringAsBytes lib"] assms(7)
  obtain dest' where "copy_row (stringAsBytes lib) 0 (rows r ! nat (rowNum r - offset r)) dest = (None, dest')"
    "length dest' = length dest" by auto
  with assms(1-6) show ?thesis by (simp add: Next_def)
qed

text \<open>At or after the last row, \<open>Next\<close> reports the end of the data and changes nothing.\<close>

lemma Next_end_of_data:
  assumes "active r" and "Result (query r) = Inr (Some rs)" and "QueryId (Metadata rs) \<noteq> - 1"
    and "rowNum r \<ge> RowCount (Metadata rs)"
  shows "Next lib dest r = (Some EOF, dest, r)"
  using assms by (simp add: Next_def)





end
